theory Spec2Isabelle
  imports Main
begin

section \<open>Python strings\<close>

text \<open>
  The tools of the repository take and return Python \<open>str\<close> values. A \<open>str\<close> is
  modelled as a \<open>string\<close> (a \<open>char list\<close>) with one \<open>char\<close> per character, so that
  \<open>length\<close> is Python's \<open>len\<close>. A \<open>char\<close> has 256 values, read as the code points
  U+0000 to U+00FF; \<open>lower\<close> and \<open>isspace\<close> below are Python's \<open>str.lower\<close> and
  \<open>str.isspace\<close> on that range. The three status marks at the head of the feedback
  literals (U+2705, U+274C and U+26A0 U+FE0F) lie beyond that range and are written as
  their UTF-8 bytes; the source never measures or searches a feedback literal.
\<close>

text \<open>\<open>len(s)\<close>, a Python int.\<close>

definition len :: "string \<Rightarrow> int" where
  "len s = int (length s)"

text \<open>\<open>s.startswith(p)\<close>, the helper of the substring test.\<close>

fun startswith :: "string \<Rightarrow> string \<Rightarrow> bool" where
  "startswith s [] = True"
| "startswith [] (p # ps) = False"
| "startswith (c # cs) (p # ps) = (c = p \<and> startswith cs ps)"

text \<open>\<open>sub in s\<close> on strings: \<open>sub\<close> occurs in \<open>s\<close> as a contiguous substring.\<close>

fun str_in :: "string \<Rightarrow> string \<Rightarrow> bool" where
  "str_in sub [] = (sub = [])"
| "str_in sub (c # cs) = (startswith (c # cs) sub \<or> str_in sub cs)"

text \<open>\<open>s.lower()\<close>: A to Z and the capital letters U+00C0 to U+00DE (but the
  multiplication sign U+00D7) move up by 32; every other character stays.\<close>

definition lower_char :: "char \<Rightarrow> char" where
  "lower_char c =
     (let n = (of_char c :: nat)
      in if (65 \<le> n \<and> n \<le> 90) \<or> (192 \<le> n \<and> n \<le> 222 \<and> n \<noteq> 215)
         then char_of (n + 32) else c)"

definition lower :: "string \<Rightarrow> string" where
  "lower s = map lower_char s"

text \<open>\<open>c.isspace()\<close>: tab to carriage return, the four separators U+001C to U+001F,
  the space, U+0085 and U+00A0. \<open>strip\<close> and \<open>split\<close> use this set.\<close>

definition isspace :: "char \<Rightarrow> bool" where
  "isspace c =
     (let n = (of_char c :: nat)
      in (9 \<le> n \<and> n \<le> 13) \<or> (28 \<le> n \<and> n \<le> 32) \<or> n = 133 \<or> n = 160)"

text \<open>\<open>s.strip()\<close>: white space removed at both ends.\<close>

definition strip :: "string \<Rightarrow> string" where
  "strip s = rev (dropWhile isspace (rev (dropWhile isspace s)))"

text \<open>\<open>s.split()\<close> with no argument: the maximal runs of characters that are not white
  space, in order. The second argument of \<open>split_ws_acc\<close> is the word being read.\<close>

fun split_ws_acc :: "string \<Rightarrow> string \<Rightarrow> string list" where
  "split_ws_acc [] w = (if w = [] then [] else [w])"
| "split_ws_acc (c # cs) w =
     (if isspace c then (if w = [] then split_ws_acc cs [] else w # split_ws_acc cs [])
      else split_ws_acc cs (w @ [c]))"

definition split_ws :: "string \<Rightarrow> string list" where
  "split_ws s = split_ws_acc s []"

text \<open>\<open>s.split(sep)\<close> for a separator of one character: the pieces between the
  separators, empty pieces kept, so the result always has one piece more than \<open>s\<close> has
  separators.\<close>

fun split_sep :: "char \<Rightarrow> string \<Rightarrow> string list" where
  "split_sep sep [] = [[]]"
| "split_sep sep (c # cs) =
     (if c = sep then [] # split_sep sep cs
      else (case split_sep sep cs of
              [] \<Rightarrow> [[c]]
            | l # ls \<Rightarrow> (c # l) # ls))"

text \<open>\<open>sep.join(xs)\<close>.\<close>

fun join :: "string \<Rightarrow> string list \<Rightarrow> string" where
  "join sep [] = []"
| "join sep [x] = x"
| "join sep (x # y # ys) = x @ sep @ join sep (y # ys)"

text \<open>\<open>s.replace(old, new)\<close> for an \<open>old\<close> of one character.\<close>

definition replace :: "char \<Rightarrow> string \<Rightarrow> string \<Rightarrow> string" where
  "replace old new s = concat (map (\<lambda>c. if c = old then new else [c]) s)"

text \<open>\<open>str(n)\<close> for a Python int: the decimal digits, with a minus sign below zero.\<close>

fun str_nat :: "nat \<Rightarrow> string" where
  "str_nat n =
     (if n < 10 then [''0123456789'' ! n]
      else str_nat (n div 10) @ [''0123456789'' ! (n mod 10)])"

declare str_nat.simps [simp del]

definition str_int :: "int \<Rightarrow> string" where
  "str_int i = (if i < 0 then ''-'' @ str_nat (nat (- i)) else str_nat (nat i))"

text \<open>\<open>any(p(x) for x in xs)\<close> is \<open>list_ex p xs\<close>; \<open>xs[:n]\<close> for \<open>n \<ge> 0\<close> is
  \<open>take n xs\<close>.\<close>

section \<open>Length Classifier\<close>

text \<open>\<open>analyze_post_length\<close> of \<open>app.py\<close> (the same text stands in
  \<open>web_ui_server.py\<close>).\<close>

definition analyze_post_length_app :: "string \<Rightarrow> string" where
  "analyze_post_length_app content =
     (let length' = len content
      in if length' < 300 then
           ''Post is '' @ str_int length' @
           '' characters - TOO SHORT. LinkedIn posts should be under 2,500 characters but with substantial content.''
         else if length' \<le> 2500 then
           ''Post is '' @ str_int length' @
           '' characters - PERFECT LENGTH. Under the 2,500 character limit!''
         else
           ''Post is '' @ str_int length' @
           '' characters - TOO LONG. Must be under 2,500 characters. Please shorten the content.'')"

text \<open>\<open>analyze_post_length\<close> of \<open>streamlit_ui.py\<close> (the same text stands in
  \<open>linkedin_agent_example.py\<close>).\<close>

definition analyze_post_length_streamlit :: "string \<Rightarrow> string" where
  "analyze_post_length_streamlit content =
     (let length' = len content
      in if length' < 300 then
           ''Post is '' @ str_int length' @
           '' characters - TOO SHORT. LinkedIn posts should be 1300-3000 characters for optimal reach.''
         else if length' < 1300 then
           ''Post is '' @ str_int length' @
           '' characters - SHORT. Consider expanding with more details, examples, or insights.''
         else if length' \<le> 3000 then
           ''Post is '' @ str_int length' @
           '' characters - OPTIMAL LENGTH. Perfect for LinkedIn engagement!''
         else
           ''Post is '' @ str_int length' @
           '' characters - TOO LONG. Consider breaking into multiple posts or cutting unnecessary content.'')"

section \<open>Hashtag Recommender\<close>

text \<open>\<open>suggest_hashtags\<close> of \<open>linkedin_agent_example.py\<close>. The dict literal is an
  association list with distinct keys; \<open>d.get(k, [])\<close> is \<open>dict_get\<close>.\<close>

definition general_hashtags :: "string list" where
  "general_hashtags = [''#LinkedIn'', ''#Professional'', ''#Career'', ''#Business'', ''#Growth'']"

definition industry_hashtags :: "(string \<times> string list) list" where
  "industry_hashtags =
     [(''tech'', [''#Technology'', ''#Innovation'', ''#AI'', ''#Software'', ''#TechTrends'']),
      (''marketing'', [''#Marketing'', ''#DigitalMarketing'', ''#ContentMarketing'', ''#Branding'', ''#SocialMedia'']),
      (''leadership'', [''#Leadership'', ''#Management'', ''#TeamBuilding'', ''#ExecutiveCoaching'', ''#WorkplaceCulture'']),
      (''entrepreneurship'', [''#Entrepreneur'', ''#Startup'', ''#SmallBusiness'', ''#Innovation'', ''#BusinessGrowth'']),
      (''finance'', [''#Finance'', ''#Investing'', ''#FinTech'', ''#Banking'', ''#Economics'']),
      (''sales'', [''#Sales'', ''#B2B'', ''#CustomerSuccess'', ''#SalesStrategy'', ''#Networking'']),
      (''hr'', [''#HumanResources'', ''#Recruiting'', ''#TalentAcquisition'', ''#WorkplaceCulture'', ''#EmployeeEngagement'']),
      (''consulting'', [''#Consulting'', ''#Strategy'', ''#BusinessConsulting'', ''#ProfessionalServices'', ''#Advisory''])]"

definition dict_get :: "(string \<times> string list) list \<Rightarrow> string \<Rightarrow> string list" where
  "dict_get d k = (case map_of d k of None \<Rightarrow> [] | Some v \<Rightarrow> v)"

text \<open>The four keyword rules, in the order of the source; each \<open>extend\<close> appends to
  \<open>suggested\<close>.\<close>

definition topic_suggested :: "string \<Rightarrow> string list" where
  "topic_suggested topic =
     (let topic_lower = lower topic;
          suggested = [];
          suggested =
            (if str_in ''learn'' topic_lower \<or> str_in ''education'' topic_lower
             then suggested @ [''#Learning'', ''#ProfessionalDevelopment'', ''#SkillBuilding'']
             else suggested);
          suggested =
            (if str_in ''success'' topic_lower \<or> str_in ''achievement'' topic_lower
             then suggested @ [''#Success'', ''#Achievement'', ''#Goals'']
             else suggested);
          suggested =
            (if str_in ''team'' topic_lower \<or> str_in ''collaboration'' topic_lower
             then suggested @ [''#Teamwork'', ''#Collaboration'', ''#TeamSuccess'']
             else suggested);
          suggested =
            (if str_in ''tip'' topic_lower \<or> str_in ''advice'' topic_lower
             then suggested @ [''#Tips'', ''#Advice'', ''#BestPractices'']
             else suggested)
      in suggested)"

text \<open>The data model of the specification reads the four \<open>if\<close> statements as a table,
  TopicKeywordRules: an ordered list of rules, each with its trigger substrings and its
  hashtags. \<open>matched_topic_hashtags\<close> follows the specification's words (the hashtags of
  every rule one of whose triggers occurs in the lower-cased topic, in the order of the
  table); it is compared with \<open>topic_suggested\<close> below.\<close>

definition topic_keyword_rules :: "(string list \<times> string list) list" where
  "topic_keyword_rules =
     [([''learn'', ''education''], [''#Learning'', ''#ProfessionalDevelopment'', ''#SkillBuilding'']),
      ([''success'', ''achievement''], [''#Success'', ''#Achievement'', ''#Goals'']),
      ([''team'', ''collaboration''], [''#Teamwork'', ''#Collaboration'', ''#TeamSuccess'']),
      ([''tip'', ''advice''], [''#Tips'', ''#Advice'', ''#BestPractices''])]"

definition matched_topic_hashtags :: "string \<Rightarrow> string list" where
  "matched_topic_hashtags topic =
     concat (map (\<lambda>(triggers, hashtags).
                    if list_ex (\<lambda>trigger. str_in trigger (lower topic)) triggers
                    then hashtags else [])
                 topic_keyword_rules)"

text \<open>\<open>list(dict.fromkeys(xs))\<close>: a dict keeps its keys in insertion order and a key
  set again keeps its place, so each element stays at its first occurrence.\<close>

definition fromkeys :: "string list \<Rightarrow> string list" where
  "fromkeys xs = foldl (\<lambda>d k. if k \<in> set d then d else d @ [k]) [] xs"

text \<open>The list \<open>final_hashtags\<close> at the \<open>return\<close>.\<close>

definition final_hashtags :: "string \<Rightarrow> string \<Rightarrow> string list" where
  "final_hashtags topic industry =
     (let suggested = topic_suggested topic;
          final = [];
          final = final @ take 2 (dict_get industry_hashtags (lower industry));
          final = final @ take 2 suggested;
          final = final @ take 1 general_hashtags
      in take 5 (fromkeys final))"

definition suggest_hashtags :: "string \<Rightarrow> string \<Rightarrow> string" where
  "suggest_hashtags topic industry =
     ''Recommended hashtags: '' @ join '' '' (final_hashtags topic industry)"

section \<open>Engagement Scorer\<close>

text \<open>\<open>check_engagement_potential\<close>; the same text stands in
  \<open>linkedin_agent_example.py\<close>, \<open>web_ui_server.py\<close> and \<open>streamlit_ui.py\<close>. The
  function threads \<open>score\<close> and \<open>feedback\<close> through its five checks.\<close>

definition check_mark :: string where
  "check_mark = [CHR 0xE2, CHR 0x9C, CHR 0x85]"

definition cross_mark :: string where
  "cross_mark = [CHR 0xE2, CHR 0x9D, CHR 0x8C]"

definition warning_mark :: string where
  "warning_mark = [CHR 0xE2, CHR 0x9A, CHR 0xA0, CHR 0xEF, CHR 0xB8, CHR 0x8F]"

definition personal_indicators :: "string list" where
  "personal_indicators =
     [''I learned'', ''My experience'', ''When I'', ''I discovered'', ''I realized'']"

definition action_words :: "string list" where
  "action_words = [''tip'', ''strategy'', ''how to'', ''step'', ''method'', ''technique'']"

definition engagement_checks :: "string \<Rightarrow> int \<times> string list" where
  "engagement_checks content =
     (let score = 0;
          feedback = [];
          (score, feedback) =
            (if str_in ''?'' content
             then (score + 20, feedback @ [check_mark @ '' Contains questions (encourages comments)''])
             else (score, feedback @ [cross_mark @ '' No questions found - add questions to encourage engagement'']));
          (score, feedback) =
            (if list_ex (\<lambda>indicator. str_in (lower indicator) (lower content)) personal_indicators
             then (score + 25, feedback @ [check_mark @ '' Includes personal experience (builds connection)''])
             else (score, feedback @ [warning_mark @ '' Consider adding personal experience or story'']));
          (score, feedback) =
            (if list_ex (\<lambda>word. str_in word (lower content)) action_words
             then (score + 20, feedback @ [check_mark @ '' Contains actionable content''])
             else (score, feedback @ [warning_mark @ '' Consider adding actionable tips or insights'']));
          (score, feedback) =
            (if str_in ''\<newline>\<newline>'' content
             then (score + 15, feedback @ [check_mark @ '' Good paragraph breaks''])
             else (score, feedback @ [cross_mark @ '' Needs better paragraph formatting'']));
          length' = len content;
          (score, feedback) =
            (if 1300 \<le> length' \<and> length' \<le> 3000
             then (score + 20, feedback @ [check_mark @ '' Optimal length''])
             else (score, feedback @ [cross_mark @ '' Length needs adjustment'']))
      in (score, feedback))"

definition engagement_level :: "int \<Rightarrow> string" where
  "engagement_level score =
     (if score \<ge> 80 then ''HIGH''
      else if score \<ge> 60 then ''MEDIUM-HIGH''
      else if score \<ge> 40 then ''MEDIUM''
      else ''LOW'')"

definition check_engagement_potential :: "string \<Rightarrow> string" where
  "check_engagement_potential content =
     (let (score, feedback) = engagement_checks content;
          level = engagement_level score
      in ''Engagement Score: '' @ str_int score @ ''/100 ('' @ level @
         '')\<newline>\<newline>Feedback:\<newline>'' @ join ''\<newline>'' feedback)"

section \<open>Reflow Formatter\<close>

text \<open>\<open>format_linkedin_post_correctly\<close> of \<open>web_ui_server.py\<close>. First the three
  \<open>replace\<close> calls and the \<open>split\<close> at the line breaks.\<close>

definition sentences_of :: "string \<Rightarrow> string list" where
  "sentences_of original_content =
     split_sep CHR ''\<newline>''
       (replace CHR ''?'' ''?\<newline>''
         (replace CHR ''!'' ''!\<newline>''
           (replace CHR ''.'' ''.\<newline>'' original_content)))"

text \<open>The inner loop over the words of a long sentence, on the pair
  \<open>(lines, current_line)\<close>. \<open>current_line[:-1]\<close> is \<open>butlast current_line\<close>.\<close>

fun chunk_words :: "string list \<Rightarrow> string list \<times> string list \<Rightarrow> string list \<times> string list" where
  "chunk_words [] (lines, current_line) = (lines, current_line)"
| "chunk_words (word # words) (lines, current_line) =
     (let current_line = current_line @ [word]
      in if len (join '' '' current_line) > 15 then
           (if length current_line > 1
            then chunk_words words (lines @ [join '' '' (butlast current_line)], [word])
            else chunk_words words (lines @ [word], []))
         else chunk_words words (lines, current_line))"

text \<open>The body of the outer loop, for one sentence.\<close>

definition reflow_sentence :: "string list \<Rightarrow> string \<Rightarrow> string list" where
  "reflow_sentence lines sentence0 =
     (let sentence = strip sentence0
      in if sentence \<noteq> [] \<and> len sentence > 15 then
           (let words = split_ws sentence;
                (lines, current_line) = chunk_words words (lines, [])
            in if current_line \<noteq> [] then lines @ [join '' '' current_line] else lines)
         else if sentence \<noteq> [] then lines @ [sentence]
         else lines)"

fun reflow_loop :: "string list \<Rightarrow> string list \<Rightarrow> string list" where
  "reflow_loop [] lines = lines"
| "reflow_loop (sentence # sentences) lines = reflow_loop sentences (reflow_sentence lines sentence)"

text \<open>The second loop, over \<open>enumerate(lines)\<close>; \<open>n\<close> is \<open>len(lines)\<close>.\<close>

fun spacing_loop :: "int \<Rightarrow> (nat \<times> string) list \<Rightarrow> string list \<Rightarrow> string list" where
  "spacing_loop n [] formatted_lines = formatted_lines"
| "spacing_loop n ((i, line) # rest) formatted_lines =
     (let formatted_lines = formatted_lines @ [line]
      in if (int i + 1) mod 2 = 0 \<and> int i < n - 1
         then spacing_loop n rest (formatted_lines @ [[]])
         else spacing_loop n rest formatted_lines)"

text \<open>The list \<open>formatted_lines\<close> at the \<open>return\<close>, and the returned text.\<close>

definition formatted_lines_of :: "string \<Rightarrow> string list" where
  "formatted_lines_of original_content =
     (let lines = reflow_loop (sentences_of original_content) []
      in spacing_loop (int (length lines)) (enumerate 0 lines) [])"

definition format_linkedin_post_correctly :: "string \<Rightarrow> string" where
  "format_linkedin_post_correctly original_content =
     ''CORRECTLY FORMATTED VERSION:\<newline>\<newline>'' @
     join ''\<newline>'' (formatted_lines_of original_content)"

section \<open>Formatting Validator\<close>

text \<open>\<open>validate_linkedin_formatting\<close> of \<open>web_ui_server.py\<close>, again on the pair
  \<open>(score, feedback)\<close>. A string is true in a condition when it is not empty; the guard
  \<open>lines and ...\<close> of the hook check protects \<open>lines[0]\<close>.\<close>

definition cta_indicators :: "string list" where
  "cta_indicators = [''?'', ''comment'', ''share'', ''thoughts'', ''experience'', ''story'']"

definition validate_checks :: "string \<Rightarrow> int \<times> string list" where
  "validate_checks content =
     (let lines = split_sep CHR ''\<newline>'' content;
          feedback = [];
          score = 0;
          long_lines = filter (\<lambda>line. len line > 80 \<and> strip line \<noteq> []) lines;
          (score, feedback) =
            (if int (length long_lines) > 2
             then (score, feedback @ [cross_mark @ '' Too many long lines. Break thoughts into shorter lines (max 80 chars)''])
             else (score + 20, feedback @ [check_mark @ '' Good line length - thoughts broken into digestible pieces'']));
          (score, feedback) =
            (if (case lines of [] \<Rightarrow> False | line0 # _ \<Rightarrow> len line0 < 60)
             then (score + 20, feedback @ [check_mark @ '' Strong hook - first line is concise and impactful''])
             else (score, feedback @ [cross_mark @ '' Hook too long - first line should be under 60 characters'']));
          empty_lines = map fst (filter (\<lambda>(i, line). strip line = []) (enumerate 0 lines));
          (score, feedback) =
            (if int (length empty_lines) \<ge> 2
             then (score + 15, feedback @ [check_mark @ '' Good use of white space between sections''])
             else (score, feedback @ [cross_mark @ '' Need more white space - add empty lines between sections'']));
          has_cta = list_ex (\<lambda>indicator. str_in indicator (lower content)) cta_indicators;
          (score, feedback) =
            (if has_cta
             then (score + 20, feedback @ [check_mark @ '' Clear call-to-action present''])
             else (score, feedback @ [cross_mark @ '' Missing call-to-action - add questions or engagement prompts'']));
          (score, feedback) =
            (if str_in ''PS:'' content \<or> str_in ''P.S.'' content
             then (score + 15, feedback @ [check_mark @ '' PS section included''])
             else (score, feedback @ [cross_mark @ '' Missing PS section - add postscript for extra engagement'']));
          (score, feedback) =
            (if len content \<le> 2500
             then (score + 10, feedback @ [check_mark @ '' Under 2,500 character limit''])
             else (score, feedback @ [cross_mark @ '' Over 2,500 character limit - needs to be shortened'']))
      in (score, feedback))"

definition validate_linkedin_formatting :: "string \<Rightarrow> string" where
  "validate_linkedin_formatting content =
     (let (score, feedback) = validate_checks content
      in ''Formatting Score: '' @ str_int score @
         ''/100\<newline>\<newline>Formatting Analysis:\<newline>'' @ join ''\<newline>'' feedback)"

section \<open>Notions for the properties of the formatter\<close>

text \<open>Two notions used to state the properties of the formatter. A word is what
  \<open>split()\<close> returns: a string that is not empty and has no white space. White-space
  normalisation keeps the words of a text and puts one space between them.\<close>

definition is_word :: "string \<Rightarrow> bool" where
  "is_word w = (w \<noteq> [] \<and> list_all (\<lambda>c. \<not> isspace c) w)"

definition normalize_ws :: "string \<Rightarrow> string" where
  "normalize_ws s = join '' '' (split_ws s)"

text \<open>The invariant of the formatter's loops: a finished line has at most 15 characters
  or is a single word, and so has the running line once joined.\<close>

definition line_ok :: "string \<Rightarrow> bool" where
  "line_ok l = (length l \<le> 15 \<or> is_word l)"

definition current_ok :: "string list \<Rightarrow> bool" where
  "current_ok current_line =
     (length (join '' '' current_line) \<le> 15 \<or>
      (case current_line of [w] \<Rightarrow> is_word w | _ \<Rightarrow> False))"

text \<open>\<open>marks_end_words ms s\<close>: in \<open>s\<close>, every character of \<open>ms\<close> is followed by white
  space or ends the text.\<close>

fun marks_end_words :: "string \<Rightarrow> string \<Rightarrow> bool" where
  "marks_end_words ms [] = True"
| "marks_end_words ms [c] = True"
| "marks_end_words ms (c # d # cs) = ((c \<in> set ms \<longrightarrow> isspace d) \<and> marks_end_words ms (d # cs))"

section \<open>Properties of the Length Classifier\<close>

text \<open>
  Claim C5. The classifier of \<open>app.py\<close> follows Scheme A: a content of fewer than 300
  characters gets the TOO SHORT message, one of 300 to 2500 characters (both bounds
  included) the PERFECT LENGTH message, and a longer one the TOO LONG message. The
  classifier of \<open>streamlit_ui.py\<close> follows Scheme B: fewer than 300 characters TOO SHORT,
  300 to 1299 SHORT (to be expanded), 1300 to 3000 OPTIMAL LENGTH, more than 3000 TOO
  LONG. Every message carries the length in decimal.
\<close>

theorem length_classifier_schemes:
  "(len content < 300 \<longrightarrow>
      analyze_post_length_app content =
        ''Post is '' @ str_int (len content) @
        '' characters - TOO SHORT. LinkedIn posts should be under 2,500 characters but with substantial content.'') \<and>
   (300 \<le> len content \<and> len content \<le> 2500 \<longrightarrow>
      analyze_post_length_app content =
        ''Post is '' @ str_int (len content) @
        '' characters - PERFECT LENGTH. Under the 2,500 character limit!'') \<and>
   (2500 < len content \<longrightarrow>
      analyze_post_length_app content =
        ''Post is '' @ str_int (len content) @
        '' characters - TOO LONG. Must be under 2,500 characters. Please shorten the content.'') \<and>
   (len content < 300 \<longrightarrow>
      analyze_post_length_streamlit content =
        ''Post is '' @ str_int (len content) @
        '' characters - TOO SHORT. LinkedIn posts should be 1300-3000 characters for optimal reach.'') \<and>
   (300 \<le> len content \<and> len content < 1300 \<longrightarrow>
      analyze_post_length_streamlit content =
        ''Post is '' @ str_int (len content) @
        '' characters - SHORT. Consider expanding with more details, examples, or insights.'') \<and>
   (1300 \<le> len content \<and> len content \<le> 3000 \<longrightarrow>
      analyze_post_length_streamlit content =
        ''Post is '' @ str_int (len content) @
        '' characters - OPTIMAL LENGTH. Perfect for LinkedIn engagement!'') \<and>
   (3000 < len content \<longrightarrow>
      analyze_post_length_streamlit content =
        ''Post is '' @ str_int (len content) @
        '' characters - TOO LONG. Consider breaking into multiple posts or cutting unnecessary content.'')"
  by (simp add: analyze_post_length_app_def analyze_post_length_streamlit_def Let_def)

theorem length_classifier_schemes_witness:
  "analyze_post_length_app (replicate 299 CHR ''x'') =
     ''Post is 299 characters - TOO SHORT. LinkedIn posts should be under 2,500 characters but with substantial content.'' \<and>
   analyze_post_length_app (replicate 300 CHR ''x'') =
     ''Post is 300 characters - PERFECT LENGTH. Under the 2,500 character limit!'' \<and>
   analyze_post_length_app (replicate 2500 CHR ''x'') =
     ''Post is 2500 characters - PERFECT LENGTH. Under the 2,500 character limit!'' \<and>
   analyze_post_length_app (replicate 2501 CHR ''x'') =
     ''Post is 2501 characters - TOO LONG. Must be under 2,500 characters. Please shorten the content.'' \<and>
   analyze_post_length_streamlit (replicate 299 CHR ''x'') =
     ''Post is 299 characters - TOO SHORT. LinkedIn posts should be 1300-3000 characters for optimal reach.'' \<and>
   analyze_post_length_streamlit (replicate 300 CHR ''x'') =
     ''Post is 300 characters - SHORT. Consider expanding with more details, examples, or insights.'' \<and>
   analyze_post_length_streamlit (replicate 1299 CHR ''x'') =
     ''Post is 1299 characters - SHORT. Consider expanding with more details, examples, or insights.'' \<and>
   analyze_post_length_streamlit (replicate 1300 CHR ''x'') =
     ''Post is 1300 characters - OPTIMAL LENGTH. Perfect for LinkedIn engagement!'' \<and>
   analyze_post_length_streamlit (replicate 3000 CHR ''x'') =
     ''Post is 3000 characters - OPTIMAL LENGTH. Perfect for LinkedIn engagement!'' \<and>
   analyze_post_length_streamlit (replicate 3001 CHR ''x'') =
     ''Post is 3001 characters - TOO LONG. Consider breaking into multiple posts or cutting unnecessary content.''"
  using length_classifier_schemes [of "replicate 299 CHR ''x''"]
        length_classifier_schemes [of "replicate 300 CHR ''x''"]
        length_classifier_schemes [of "replicate 2500 CHR ''x''"]
        length_classifier_schemes [of "replicate 2501 CHR ''x''"]
        length_classifier_schemes [of "replicate 1299 CHR ''x''"]
        length_classifier_schemes [of "replicate 1300 CHR ''x''"]
        length_classifier_schemes [of "replicate 3000 CHR ''x''"]
        length_classifier_schemes [of "replicate 3001 CHR ''x''"]
  by (simp add: len_def str_int_def str_nat.simps)

section \<open>Facts about the string operations\<close>

lemma startswith_iff: "startswith s p \<longleftrightarrow> (\<exists>q. s = p @ q)"
  by (induction s p rule: startswith.induct) auto

text \<open>\<open>str_in\<close> is the substring relation.\<close>

lemma str_in_iff: "str_in sub s \<longleftrightarrow> (\<exists>p q. s = p @ sub @ q)"
proof (induction s)
  case Nil
  then show ?case by auto
next
  case (Cons c cs)
  show ?case
  proof
    assume "str_in sub (c # cs)"
    then consider "startswith (c # cs) sub" | "str_in sub cs" by auto
    then show "\<exists>p q. c # cs = p @ sub @ q"
    proof cases
      case 1
      then obtain q where "c # cs = sub @ q" by (auto simp: startswith_iff)
      then have "c # cs = [] @ sub @ q" by simp
      then show ?thesis by blast
    next
      case 2
      then obtain p q where "cs = p @ sub @ q" using Cons.IH by blast
      then have "c # cs = (c # p) @ sub @ q" by simp
      then show ?thesis by blast
    qed
  next
    assume "\<exists>p q. c # cs = p @ sub @ q"
    then obtain p q where pq: "c # cs = p @ sub @ q" by blast
    show "str_in sub (c # cs)"
    proof (cases p)
      case Nil
      with pq have "startswith (c # cs) sub" by (auto simp: startswith_iff)
      then show ?thesis by simp
    next
      case (Cons a p')
      with pq have "cs = p' @ sub @ q" by simp
      then have "str_in sub cs" using Cons.IH by blast
      then show ?thesis by simp
    qed
  qed
qed

lemma str_in_appendI1: "str_in sub a \<Longrightarrow> str_in sub (a @ b)"
proof -
  assume "str_in sub a"
  then obtain p q where "a = p @ sub @ q" by (auto simp: str_in_iff)
  then have "a @ b = p @ sub @ (q @ b)" by simp
  then show ?thesis unfolding str_in_iff by blast
qed

lemma str_in_set: "str_in sub s \<Longrightarrow> set sub \<subseteq> set s"
  by (auto simp: str_in_iff)

lemma lower_append: "lower (a @ b) = lower a @ lower b"
  by (simp add: lower_def)

lemma str_in_lower: "str_in sub s \<Longrightarrow> str_in (lower sub) (lower s)"
proof -
  assume "str_in sub s"
  then obtain p q where "s = p @ sub @ q" by (auto simp: str_in_iff)
  then have "lower s = lower p @ lower sub @ lower q" by (simp add: lower_append)
  then show ?thesis unfolding str_in_iff by blast
qed

lemma list_ex_lower_both:
  assumes "list_ex (\<lambda>w. str_in w content) ws"
  shows "list_ex (\<lambda>w. str_in (lower w) (lower content)) ws"
  using assms by (auto simp: list_ex_iff intro: str_in_lower)

lemma list_ex_lower_fixed:
  assumes "list_all (\<lambda>w. lower w = w) ws" and "list_ex (\<lambda>w. str_in w content) ws"
  shows "list_ex (\<lambda>w. str_in w (lower content)) ws"
proof -
  from assms(2) obtain w where w: "w \<in> set ws" "str_in w content"
    by (auto simp: list_ex_iff)
  with assms(1) have "lower w = w" by (auto simp: list_all_iff)
  with w(2) have "str_in w (lower content)" using str_in_lower by fastforce
  with w(1) show ?thesis by (auto simp: list_ex_iff)
qed

lemma length_filter_enumerate:
  "length (filter (\<lambda>(i, line). P line) (enumerate n xs)) = length (filter P xs)"
  by (induction xs arbitrary: n) auto

section \<open>The scores as sums of weights\<close>

lemma engagement_score:
  "fst (engagement_checks content) =
     (if str_in ''?'' content then 20 else 0) +
     (if list_ex (\<lambda>indicator. str_in (lower indicator) (lower content)) personal_indicators
      then 25 else 0) +
     (if list_ex (\<lambda>word. str_in word (lower content)) action_words then 20 else 0) +
     (if str_in ''\<newline>\<newline>'' content then 15 else 0) +
     (if 1300 \<le> len content \<and> len content \<le> 3000 then 20 else 0)"
  by (simp add: engagement_checks_def Let_def)

lemma engagement_feedback:
  "snd (engagement_checks content) =
     [if str_in ''?'' content
      then check_mark @ '' Contains questions (encourages comments)''
      else cross_mark @ '' No questions found - add questions to encourage engagement'',
      if list_ex (\<lambda>indicator. str_in (lower indicator) (lower content)) personal_indicators
      then check_mark @ '' Includes personal experience (builds connection)''
      else warning_mark @ '' Consider adding personal experience or story'',
      if list_ex (\<lambda>word. str_in word (lower content)) action_words
      then check_mark @ '' Contains actionable content''
      else warning_mark @ '' Consider adding actionable tips or insights'',
      if str_in ''\<newline>\<newline>'' content
      then check_mark @ '' Good paragraph breaks''
      else cross_mark @ '' Needs better paragraph formatting'',
      if 1300 \<le> len content \<and> len content \<le> 3000
      then check_mark @ '' Optimal length''
      else cross_mark @ '' Length needs adjustment'']"
  by (simp add: engagement_checks_def Let_def)

lemma validate_score:
  "fst (validate_checks content) =
     (if 2 < length (filter (\<lambda>line. len line > 80 \<and> strip line \<noteq> [])
                      (split_sep CHR ''\<newline>'' content))
      then 0 else 20) +
     (if (case split_sep CHR ''\<newline>'' content of [] \<Rightarrow> False | line0 # _ \<Rightarrow> len line0 < 60)
      then 20 else 0) +
     (if 2 \<le> length (filter (\<lambda>line. strip line = []) (split_sep CHR ''\<newline>'' content))
      then 15 else 0) +
     (if list_ex (\<lambda>indicator. str_in indicator (lower content)) cta_indicators then 20 else 0) +
     (if str_in ''PS:'' content \<or> str_in ''P.S.'' content then 15 else 0) +
     (if len content \<le> 2500 then 10 else 0)"
  by (simp add: validate_checks_def Let_def length_filter_enumerate)

lemma lower_action_words: "list_all (\<lambda>w. lower w = w) action_words"
  by code_simp

lemma engagement_level_HIGH: "engagement_level s = ''HIGH'' \<longleftrightarrow> 80 \<le> s"
  by (simp add: engagement_level_def)

lemma engagement_empty:
  "engagement_checks [] =
     (0, [cross_mark @ '' No questions found - add questions to encourage engagement'',
          warning_mark @ '' Consider adding personal experience or story'',
          warning_mark @ '' Consider adding actionable tips or insights'',
          cross_mark @ '' Needs better paragraph formatting'',
          cross_mark @ '' Length needs adjustment''])"
  by code_simp

lemma engagement_report_empty:
  "check_engagement_potential [] =
     ''Engagement Score: 0/100 (LOW)\<newline>\<newline>Feedback:\<newline>'' @
     cross_mark @ '' No questions found - add questions to encourage engagement\<newline>'' @
     warning_mark @ '' Consider adding personal experience or story\<newline>'' @
     warning_mark @ '' Consider adding actionable tips or insights\<newline>'' @
     cross_mark @ '' Needs better paragraph formatting\<newline>'' @
     cross_mark @ '' Length needs adjustment''"
  by code_simp

lemma validate_empty:
  "validate_checks [] =
     (50, [check_mark @ '' Good line length - thoughts broken into digestible pieces'',
           check_mark @ '' Strong hook - first line is concise and impactful'',
           cross_mark @ '' Need more white space - add empty lines between sections'',
           cross_mark @ '' Missing call-to-action - add questions or engagement prompts'',
           cross_mark @ '' Missing PS section - add postscript for extra engagement'',
           check_mark @ '' Under 2,500 character limit''])"
  by code_simp

lemma engagement_all_pass:
  assumes "str_in ''?'' content"
    and "list_ex (\<lambda>p. str_in p content) personal_indicators"
    and "list_ex (\<lambda>w. str_in w content) action_words"
    and "str_in ''\<newline>\<newline>'' content"
    and "1300 \<le> len content" and "len content \<le> 3000"
  shows "fst (engagement_checks content) = 100"
  using assms list_ex_lower_both [OF assms(2)]
    list_ex_lower_fixed [OF lower_action_words assms(3)]
  by (simp add: engagement_score)

text \<open>A text of 1500 characters that passes the five checks of the Engagement Scorer.\<close>

lemma full_text_facts:
  "str_in ''?'' (''I learned a tip?\<newline>\<newline>'' @ replicate 1482 CHR ''x'')"
  "list_ex (\<lambda>p. str_in p (''I learned a tip?\<newline>\<newline>'' @ replicate 1482 CHR ''x''))
     personal_indicators"
  "list_ex (\<lambda>w. str_in w (''I learned a tip?\<newline>\<newline>'' @ replicate 1482 CHR ''x''))
     action_words"
  "str_in ''\<newline>\<newline>'' (''I learned a tip?\<newline>\<newline>'' @ replicate 1482 CHR ''x'')"
  "len (''I learned a tip?\<newline>\<newline>'' @ replicate 1482 CHR ''x'') = 1500"
proof -
  have a: "str_in ''?'' ''I learned a tip?\<newline>\<newline>''" by code_simp
  have b: "str_in ''I learned'' ''I learned a tip?\<newline>\<newline>''" by code_simp
  have c: "str_in ''tip'' ''I learned a tip?\<newline>\<newline>''" by code_simp
  have d: "str_in ''\<newline>\<newline>'' ''I learned a tip?\<newline>\<newline>''" by code_simp
  show "str_in ''?'' (''I learned a tip?\<newline>\<newline>'' @ replicate 1482 CHR ''x'')"
    by (rule str_in_appendI1 [OF a])
  show "list_ex (\<lambda>p. str_in p (''I learned a tip?\<newline>\<newline>'' @ replicate 1482 CHR ''x''))
     personal_indicators"
    unfolding list_ex_iff personal_indicators_def using str_in_appendI1 [OF b] by simp
  show "list_ex (\<lambda>w. str_in w (''I learned a tip?\<newline>\<newline>'' @ replicate 1482 CHR ''x''))
     action_words"
    unfolding list_ex_iff action_words_def using str_in_appendI1 [OF c] by simp
  show "str_in ''\<newline>\<newline>'' (''I learned a tip?\<newline>\<newline>'' @ replicate 1482 CHR ''x'')"
    by (rule str_in_appendI1 [OF d])
  show "len (''I learned a tip?\<newline>\<newline>'' @ replicate 1482 CHR ''x'') = 1500"
    by (simp add: len_def)
qed

lemma full_text_score:
  "fst (engagement_checks (''I learned a tip?\<newline>\<newline>'' @ replicate 1482 CHR ''x'')) = 100"
proof (rule engagement_all_pass [OF full_text_facts(1-4)])
  show "1300 \<le> len (''I learned a tip?\<newline>\<newline>'' @ replicate 1482 CHR ''x'')"
    by (simp only: full_text_facts(5))
  show "len (''I learned a tip?\<newline>\<newline>'' @ replicate 1482 CHR ''x'') \<le> 3000"
    by (simp only: full_text_facts(5))
qed

lemma validate_full_marks: "fst (validate_checks ''Hi?\<newline>\<newline>\<newline>PS: x'') = 100"
  by code_simp


section \<open>Properties of the Engagement Scorer and the Formatting Validator\<close>

text \<open>
  Claim C4. For every input text the score of the Engagement Scorer and the score of the
  Formatting Validator lie between 0 and 100, both included. Neither function clamps its
  score: the bound holds because the weights of the checks add up to 100, and 100 is
  reached, by a text that passes all five checks of the scorer and by a text that passes
  all six checks of the validator.
\<close>

theorem scores_between_0_and_100:
  "0 \<le> fst (engagement_checks content) \<and> fst (engagement_checks content) \<le> 100 \<and>
   0 \<le> fst (validate_checks content) \<and> fst (validate_checks content) \<le> 100 \<and>
   fst (engagement_checks (''I learned a tip?\<newline>\<newline>'' @ replicate 1482 CHR ''x'')) = 100 \<and>
   fst (validate_checks ''Hi?\<newline>\<newline>\<newline>PS: x'') = 100"
proof -
  have "0 \<le> fst (engagement_checks content) \<and> fst (engagement_checks content) \<le> 100"
    by (simp add: engagement_score)
  moreover have "0 \<le> fst (validate_checks content) \<and> fst (validate_checks content) \<le> 100"
    by (simp add: validate_score)
  ultimately show ?thesis using full_text_score validate_full_marks by blast
qed

text \<open>
  Claim C3. For every input the Engagement Scorer returns exactly 5 feedback entries, one
  per check and in the order of the checks (question, personal experience, actionable
  content, paragraph break, length): the entry at each position is the pass message or the
  fail message of that check. A text that contains a question mark, one of the
  first-person phrases, one of the action words and a double newline, and has exactly 1500
  characters, scores exactly 100 with level HIGH. The empty string scores 0 with level LOW,
  and its 5 feedback entries are the five fail messages in that order.
\<close>

theorem engagement_five_entries:
  "length (snd (engagement_checks content)) = 5 \<and>
   snd (engagement_checks content) ! 0 \<in>
     {check_mark @ '' Contains questions (encourages comments)'',
      cross_mark @ '' No questions found - add questions to encourage engagement''} \<and>
   snd (engagement_checks content) ! 1 \<in>
     {check_mark @ '' Includes personal experience (builds connection)'',
      warning_mark @ '' Consider adding personal experience or story''} \<and>
   snd (engagement_checks content) ! 2 \<in>
     {check_mark @ '' Contains actionable content'',
      warning_mark @ '' Consider adding actionable tips or insights''} \<and>
   snd (engagement_checks content) ! 3 \<in>
     {check_mark @ '' Good paragraph breaks'',
      cross_mark @ '' Needs better paragraph formatting''} \<and>
   snd (engagement_checks content) ! 4 \<in>
     {check_mark @ '' Optimal length'',
      cross_mark @ '' Length needs adjustment''} \<and>
   (str_in ''?'' content \<and>
    list_ex (\<lambda>phrase. str_in phrase content) personal_indicators \<and>
    list_ex (\<lambda>word. str_in word content) action_words \<and>
    str_in ''\<newline>\<newline>'' content \<and>
    len content = 1500 \<longrightarrow>
      fst (engagement_checks content) = 100 \<and>
      engagement_level (fst (engagement_checks content)) = ''HIGH'') \<and>
   engagement_checks '''' =
     (0, [cross_mark @ '' No questions found - add questions to encourage engagement'',
          warning_mark @ '' Consider adding personal experience or story'',
          warning_mark @ '' Consider adding actionable tips or insights'',
          cross_mark @ '' Needs better paragraph formatting'',
          cross_mark @ '' Length needs adjustment'']) \<and>
   engagement_level (fst (engagement_checks '''')) = ''LOW'' \<and>
   check_engagement_potential '''' =
     ''Engagement Score: 0/100 (LOW)\<newline>\<newline>Feedback:\<newline>'' @
     cross_mark @ '' No questions found - add questions to encourage engagement\<newline>'' @
     warning_mark @ '' Consider adding personal experience or story\<newline>'' @
     warning_mark @ '' Consider adding actionable tips or insights\<newline>'' @
     cross_mark @ '' Needs better paragraph formatting\<newline>'' @
     cross_mark @ '' Length needs adjustment''"
proof -
  have five: "length (snd (engagement_checks content)) = 5"
    by (simp add: engagement_feedback)
  have e0: "snd (engagement_checks content) ! 0 \<in>
     {check_mark @ '' Contains questions (encourages comments)'',
      cross_mark @ '' No questions found - add questions to encourage engagement''}"
    by (simp add: engagement_feedback)
  have e1: "snd (engagement_checks content) ! 1 \<in>
     {check_mark @ '' Includes personal experience (builds connection)'',
      warning_mark @ '' Consider adding personal experience or story''}"
    by (simp add: engagement_feedback)
  have e2: "snd (engagement_checks content) ! 2 \<in>
     {check_mark @ '' Contains actionable content'',
      warning_mark @ '' Consider adding actionable tips or insights''}"
    by (simp add: engagement_feedback)
  have e3: "snd (engagement_checks content) ! 3 \<in>
     {check_mark @ '' Good paragraph breaks'',
      cross_mark @ '' Needs better paragraph formatting''}"
    by (simp add: engagement_feedback)
  have e4: "snd (engagement_checks content) ! 4 \<in>
     {check_mark @ '' Optimal length'',
      cross_mark @ '' Length needs adjustment''}"
    by (simp add: engagement_feedback)
  have full: "str_in ''?'' content \<and>
    list_ex (\<lambda>phrase. str_in phrase content) personal_indicators \<and>
    list_ex (\<lambda>word. str_in word content) action_words \<and>
    str_in ''\<newline>\<newline>'' content \<and>
    len content = 1500 \<longrightarrow>
      fst (engagement_checks content) = 100 \<and>
      engagement_level (fst (engagement_checks content)) = ''HIGH''"
  proof
    assume h: "str_in ''?'' content \<and>
      list_ex (\<lambda>phrase. str_in phrase content) personal_indicators \<and>
      list_ex (\<lambda>word. str_in word content) action_words \<and>
      str_in ''\<newline>\<newline>'' content \<and>
      len content = 1500"
    then have "fst (engagement_checks content) = 100"
      by (intro engagement_all_pass) simp_all
    then show "fst (engagement_checks content) = 100 \<and>
      engagement_level (fst (engagement_checks content)) = ''HIGH''"
      by (simp add: engagement_level_HIGH)
  qed
  have low: "engagement_level (fst (engagement_checks '''')) = ''LOW''"
    by (simp add: engagement_empty engagement_level_def)
  from five e0 e1 e2 e3 e4 full low engagement_empty engagement_report_empty
  show ?thesis by blast
qed

theorem engagement_five_entries_witness:
  "str_in ''?'' (''I learned a tip?\<newline>\<newline>'' @ replicate 1482 CHR ''x'') \<and>
   list_ex (\<lambda>phrase. str_in phrase (''I learned a tip?\<newline>\<newline>'' @ replicate 1482 CHR ''x''))
     personal_indicators \<and>
   list_ex (\<lambda>word. str_in word (''I learned a tip?\<newline>\<newline>'' @ replicate 1482 CHR ''x''))
     action_words \<and>
   str_in ''\<newline>\<newline>'' (''I learned a tip?\<newline>\<newline>'' @ replicate 1482 CHR ''x'') \<and>
   len (''I learned a tip?\<newline>\<newline>'' @ replicate 1482 CHR ''x'') = 1500 \<and>
   fst (engagement_checks (''I learned a tip?\<newline>\<newline>'' @ replicate 1482 CHR ''x'')) = 100 \<and>
   engagement_level
     (fst (engagement_checks (''I learned a tip?\<newline>\<newline>'' @ replicate 1482 CHR ''x''))) = ''HIGH''"
  using engagement_five_entries [of "''I learned a tip?\<newline>\<newline>'' @ replicate 1482 CHR ''x''"]
    full_text_facts
  by blast

text \<open>
  Claim C9. Whenever the Engagement Scorer reports the level HIGH, the score is at least
  80 and the personal-experience check has passed: the lower-cased input contains the
  lower-cased form of one of the phrases "I learned", "My experience", "When I",
  "I discovered", "I realized" as a substring. The other four weights (20 + 20 + 15 + 20)
  add up to 75 only.
\<close>

theorem high_level_needs_personal_experience:
  assumes "engagement_level (fst (engagement_checks content)) = ''HIGH''"
  shows "80 \<le> fst (engagement_checks content) \<and>
    list_ex (\<lambda>indicator. str_in (lower indicator) (lower content)) personal_indicators \<and>
    (\<exists>phrase \<in> set [''I learned'', ''My experience'', ''When I'', ''I discovered'', ''I realized''].
       \<exists>before after. lower content = before @ lower phrase @ after)"
proof -
  from assms have high: "80 \<le> fst (engagement_checks content)"
    by (simp add: engagement_level_HIGH)
  have personal:
    "list_ex (\<lambda>indicator. str_in (lower indicator) (lower content)) personal_indicators"
  proof (rule ccontr)
    assume "\<not> list_ex (\<lambda>indicator. str_in (lower indicator) (lower content)) personal_indicators"
    then have "fst (engagement_checks content) \<le> 75"
      by (simp add: engagement_score)
    with high show False by simp
  qed
  then obtain phrase where "phrase \<in> set personal_indicators"
    and "str_in (lower phrase) (lower content)"
    by (auto simp: list_ex_iff)
  then have "\<exists>phrase \<in> set [''I learned'', ''My experience'', ''When I'', ''I discovered'', ''I realized''].
       \<exists>before after. lower content = before @ lower phrase @ after"
    unfolding personal_indicators_def str_in_iff by blast
  with high personal show ?thesis by blast
qed

theorem high_level_needs_personal_experience_witness:
  "engagement_level
     (fst (engagement_checks (''I learned a tip?\<newline>\<newline>'' @ replicate 1482 CHR ''x''))) = ''HIGH'' \<and>
   list_ex (\<lambda>indicator. str_in (lower indicator)
       (lower (''I learned a tip?\<newline>\<newline>'' @ replicate 1482 CHR ''x''))) personal_indicators"
proof -
  from full_text_score have high: "engagement_level
     (fst (engagement_checks (''I learned a tip?\<newline>\<newline>'' @ replicate 1482 CHR ''x''))) = ''HIGH''"
    by (simp add: engagement_level_HIGH)
  from high high_level_needs_personal_experience [OF high] show ?thesis by blast
qed

text \<open>
  Claim C8, as amended. On the empty string every check of both functions runs and none
  fails with an error. The Engagement Scorer fails all five checks: its feedback is the
  five fail messages and its score is 0, level LOW. The Formatting Validator fails the
  white-space, call-to-action and PS checks, but the empty string has no long line, a
  first line under 60 characters and at most 2500 characters, so those three checks pass
  and the score is 50.
\<close>

theorem empty_text_scores:
  "engagement_checks '''' =
     (0, [cross_mark @ '' No questions found - add questions to encourage engagement'',
          warning_mark @ '' Consider adding personal experience or story'',
          warning_mark @ '' Consider adding actionable tips or insights'',
          cross_mark @ '' Needs better paragraph formatting'',
          cross_mark @ '' Length needs adjustment'']) \<and>
   engagement_level 0 = ''LOW'' \<and>
   validate_checks '''' =
     (50, [check_mark @ '' Good line length - thoughts broken into digestible pieces'',
           check_mark @ '' Strong hook - first line is concise and impactful'',
           cross_mark @ '' Need more white space - add empty lines between sections'',
           cross_mark @ '' Missing call-to-action - add questions or engagement prompts'',
           cross_mark @ '' Missing PS section - add postscript for extra engagement'',
           check_mark @ '' Under 2,500 character limit''])"
  using engagement_empty validate_empty by (simp add: engagement_level_def)

text \<open>The claim as first stated (score 0 for both functions) fails for the validator.\<close>

theorem empty_text_validator_counterexample:
  "fst (validate_checks '''') = 50 \<and> fst (validate_checks '''') \<noteq> 0"
  by (simp add: validate_empty)

section \<open>The validator on a text with one long line\<close>

lemma split_sep_line: "sep \<notin> set l \<Longrightarrow> split_sep sep (l @ sep # rest) = l # split_sep sep rest"
  by (induction l) auto

lemma split_sep_last: "sep \<notin> set l \<Longrightarrow> split_sep sep l = [l]"
  by (induction l) auto

lemma split_sep_repeat:
  "sep \<notin> set l \<Longrightarrow>
   split_sep sep (concat (replicate n (l @ [sep])) @ rest) = replicate n l @ split_sep sep rest"
  by (induction n) (simp_all add: split_sep_line)

lemma length_filter_conj_le: "length (filter (\<lambda>x. P x \<and> Q x) xs) \<le> length (filter P xs)"
  by (induction xs) auto

lemma strip_replicate: "\<not> isspace c \<Longrightarrow> strip (replicate n c) = replicate n c"
  by (simp add: strip_def dropWhile_replicate)

lemma not_str_in: "c \<in> set sub \<Longrightarrow> c \<notin> set s \<Longrightarrow> \<not> str_in sub s"
  using str_in_set by blast

text \<open>A text of 3000 characters: a first line of 70 characters, one line of 90, then 35
  lines of 80 and a last line of 3, all of the letter a.\<close>

lemma long_line_text_lines:
  "split_sep CHR ''\<newline>''
     (replicate 70 CHR ''a'' @ CHR ''\<newline>'' # replicate 90 CHR ''a'' @ CHR ''\<newline>'' #
      concat (replicate 35 (replicate 80 CHR ''a'' @ [CHR ''\<newline>''])) @ replicate 3 CHR ''a'') =
   replicate 70 CHR ''a'' # replicate 90 CHR ''a'' #
   replicate 35 (replicate 80 CHR ''a'') @ [replicate 3 CHR ''a'']"
proof -
  have nl: "CHR ''\<newline>'' \<notin> set (replicate k CHR ''a'')" for k
    by simp
  show ?thesis
    by (simp only: split_sep_line [OF nl] split_sep_repeat [OF nl] split_sep_last [OF nl])
qed

lemma long_line_text_set:
  "set (lower (replicate 70 CHR ''a'' @ CHR ''\<newline>'' # replicate 90 CHR ''a'' @ CHR ''\<newline>'' #
      concat (replicate 35 (replicate 80 CHR ''a'' @ [CHR ''\<newline>''])) @ replicate 3 CHR ''a'')) =
   {CHR ''a'', CHR ''\<newline>''}"
proof -
  have "lower_char CHR ''a'' = CHR ''a''" "lower_char CHR ''\<newline>'' = CHR ''\<newline>''"
    by code_simp+
  then show ?thesis by (auto simp: lower_def)
qed

lemma long_line_text_facts:
  "length (filter (\<lambda>line. len line > 80)
     (split_sep CHR ''\<newline>''
       (replicate 70 CHR ''a'' @ CHR ''\<newline>'' # replicate 90 CHR ''a'' @ CHR ''\<newline>'' #
        concat (replicate 35 (replicate 80 CHR ''a'' @ [CHR ''\<newline>''])) @ replicate 3 CHR ''a''))) = 1"
  "len (hd (split_sep CHR ''\<newline>''
       (replicate 70 CHR ''a'' @ CHR ''\<newline>'' # replicate 90 CHR ''a'' @ CHR ''\<newline>'' #
        concat (replicate 35 (replicate 80 CHR ''a'' @ [CHR ''\<newline>''])) @ replicate 3 CHR ''a''))) = 70"
  "list_all (\<lambda>line. strip line \<noteq> [])
     (split_sep CHR ''\<newline>''
       (replicate 70 CHR ''a'' @ CHR ''\<newline>'' # replicate 90 CHR ''a'' @ CHR ''\<newline>'' #
        concat (replicate 35 (replicate 80 CHR ''a'' @ [CHR ''\<newline>''])) @ replicate 3 CHR ''a''))"
  "\<not> list_ex (\<lambda>indicator. str_in indicator
       (lower (replicate 70 CHR ''a'' @ CHR ''\<newline>'' # replicate 90 CHR ''a'' @ CHR ''\<newline>'' #
        concat (replicate 35 (replicate 80 CHR ''a'' @ [CHR ''\<newline>''])) @ replicate 3 CHR ''a'')))
     cta_indicators"
  "\<not> str_in ''PS:''
       (replicate 70 CHR ''a'' @ CHR ''\<newline>'' # replicate 90 CHR ''a'' @ CHR ''\<newline>'' #
        concat (replicate 35 (replicate 80 CHR ''a'' @ [CHR ''\<newline>''])) @ replicate 3 CHR ''a'')"
  "\<not> str_in ''P.S.''
       (replicate 70 CHR ''a'' @ CHR ''\<newline>'' # replicate 90 CHR ''a'' @ CHR ''\<newline>'' #
        concat (replicate 35 (replicate 80 CHR ''a'' @ [CHR ''\<newline>''])) @ replicate 3 CHR ''a'')"
  "len (replicate 70 CHR ''a'' @ CHR ''\<newline>'' # replicate 90 CHR ''a'' @ CHR ''\<newline>'' #
        concat (replicate 35 (replicate 80 CHR ''a'' @ [CHR ''\<newline>''])) @ replicate 3 CHR ''a'') = 3000"
proof -
  let ?T = "replicate 70 CHR ''a'' @ CHR ''\<newline>'' # replicate 90 CHR ''a'' @ CHR ''\<newline>'' #
        concat (replicate 35 (replicate 80 CHR ''a'' @ [CHR ''\<newline>''])) @ replicate 3 CHR ''a''"
  have sp: "\<not> isspace CHR ''a''" by (simp add: isspace_def)
  show "length (filter (\<lambda>line. len line > 80) (split_sep CHR ''\<newline>'' ?T)) = 1"
    unfolding long_line_text_lines by (simp add: len_def)
  show "len (hd (split_sep CHR ''\<newline>'' ?T)) = 70"
    unfolding long_line_text_lines by (simp add: len_def)
  show "list_all (\<lambda>line. strip line \<noteq> []) (split_sep CHR ''\<newline>'' ?T)"
    unfolding long_line_text_lines by (simp add: strip_replicate [OF sp] list_all_iff)
  have cta: "\<not> str_in indicator (lower ?T)" if "c \<in> set indicator" "c \<noteq> CHR ''a''"
    "c \<noteq> CHR ''\<newline>''" for indicator c
  proof (rule not_str_in [OF that(1)])
    show "c \<notin> set (lower ?T)"
      unfolding long_line_text_set using that(2,3) by simp
  qed
  have "\<not> str_in ''?'' (lower ?T)" by (rule cta [of "CHR ''?''"]) simp_all
  moreover have "\<not> str_in ''comment'' (lower ?T)" by (rule cta [of "CHR ''c''"]) simp_all
  moreover have "\<not> str_in ''share'' (lower ?T)" by (rule cta [of "CHR ''s''"]) simp_all
  moreover have "\<not> str_in ''thoughts'' (lower ?T)" by (rule cta [of "CHR ''t''"]) simp_all
  moreover have "\<not> str_in ''experience'' (lower ?T)" by (rule cta [of "CHR ''e''"]) simp_all
  moreover have "\<not> str_in ''story'' (lower ?T)" by (rule cta [of "CHR ''s''"]) simp_all
  ultimately show "\<not> list_ex (\<lambda>indicator. str_in indicator (lower ?T)) cta_indicators"
    by (simp add: cta_indicators_def)
  have P: "CHR ''P'' \<notin> set ?T" by simp
  show "\<not> str_in ''PS:'' ?T"
    by (rule not_str_in [OF _ P]) simp
  show "\<not> str_in ''P.S.'' ?T"
    by (rule not_str_in [OF _ P]) simp
  show "len ?T = 3000"
    by (simp add: len_def length_concat sum_list_replicate)
qed

text \<open>
  Claim C2, as amended. A text with exactly one line longer than 80 characters, a first
  line of 70 characters, no blank line, no call-to-action indicator, neither "PS:" nor
  "P.S.", and 3000 characters in all, gets the formatting score 20: one long line is not
  more than the two that the line-length check tolerates, so that check passes, and the
  other five checks fail.
\<close>

theorem one_long_line_scores_20:
  assumes "length (filter (\<lambda>line. len line > 80) (split_sep CHR ''\<newline>'' content)) = 1"
    and "len (hd (split_sep CHR ''\<newline>'' content)) = 70"
    and "list_all (\<lambda>line. strip line \<noteq> []) (split_sep CHR ''\<newline>'' content)"
    and "\<not> list_ex (\<lambda>indicator. str_in indicator (lower content)) cta_indicators"
    and "\<not> str_in ''PS:'' content" and "\<not> str_in ''P.S.'' content"
    and "len content = 3000"
  shows "fst (validate_checks content) = 20 \<and>
    (\<exists>analysis. validate_linkedin_formatting content = ''Formatting Score: 20/100'' @ analysis)"
proof -
  have "length (filter (\<lambda>line. len line > 80 \<and> strip line \<noteq> []) (split_sep CHR ''\<newline>'' content))
      \<le> 1"
    using length_filter_conj_le [of "\<lambda>line. len line > 80" "\<lambda>line. strip line \<noteq> []"
        "split_sep CHR ''\<newline>'' content"] assms(1)
    by simp
  then have c1: "\<not> 2 < length (filter (\<lambda>line. len line > 80 \<and> strip line \<noteq> [])
      (split_sep CHR ''\<newline>'' content))"
    by simp
  have c2: "\<not> (case split_sep CHR ''\<newline>'' content of [] \<Rightarrow> False | line0 # _ \<Rightarrow> len line0 < 60)"
    using assms(2) by (cases "split_sep CHR ''\<newline>'' content") simp_all
  have "filter (\<lambda>line. strip line = []) (split_sep CHR ''\<newline>'' content) = []"
    using assms(3) by (simp add: list_all_iff filter_empty_conv)
  then have c3: "\<not> 2 \<le> length (filter (\<lambda>line. strip line = []) (split_sep CHR ''\<newline>'' content))"
    by simp
  have c6: "\<not> len content \<le> 2500"
    using assms(7) by simp
  have score: "fst (validate_checks content) = 20"
    unfolding validate_score using c1 c2 c3 c6 assms(4,5,6) by simp
  have "str_int 20 = ''20''"
    by (simp add: str_int_def str_nat.simps)
  with score have "validate_linkedin_formatting content =
      ''Formatting Score: 20/100'' @
      (''\<newline>\<newline>Formatting Analysis:\<newline>'' @ join ''\<newline>'' (snd (validate_checks content)))"
    by (simp add: validate_linkedin_formatting_def split_def)
  with score show ?thesis by blast
qed

theorem one_long_line_scores_20_witness:
  "len (replicate 70 CHR ''a'' @ CHR ''\<newline>'' # replicate 90 CHR ''a'' @ CHR ''\<newline>'' #
        concat (replicate 35 (replicate 80 CHR ''a'' @ [CHR ''\<newline>''])) @ replicate 3 CHR ''a'') = 3000 \<and>
   fst (validate_checks
     (replicate 70 CHR ''a'' @ CHR ''\<newline>'' # replicate 90 CHR ''a'' @ CHR ''\<newline>'' #
      concat (replicate 35 (replicate 80 CHR ''a'' @ [CHR ''\<newline>''])) @ replicate 3 CHR ''a'')) = 20"
  using one_long_line_scores_20 [OF long_line_text_facts] long_line_text_facts(7)
  by blast

text \<open>The claim as first stated (score 0) fails on that text.\<close>

theorem one_long_line_counterexample:
  "length (filter (\<lambda>line. len line > 80)
     (split_sep CHR ''\<newline>''
       (replicate 70 CHR ''a'' @ CHR ''\<newline>'' # replicate 90 CHR ''a'' @ CHR ''\<newline>'' #
        concat (replicate 35 (replicate 80 CHR ''a'' @ [CHR ''\<newline>''])) @ replicate 3 CHR ''a''))) = 1 \<and>
   len (hd (split_sep CHR ''\<newline>''
       (replicate 70 CHR ''a'' @ CHR ''\<newline>'' # replicate 90 CHR ''a'' @ CHR ''\<newline>'' #
        concat (replicate 35 (replicate 80 CHR ''a'' @ [CHR ''\<newline>''])) @ replicate 3 CHR ''a''))) = 70 \<and>
   list_all (\<lambda>line. strip line \<noteq> [])
     (split_sep CHR ''\<newline>''
       (replicate 70 CHR ''a'' @ CHR ''\<newline>'' # replicate 90 CHR ''a'' @ CHR ''\<newline>'' #
        concat (replicate 35 (replicate 80 CHR ''a'' @ [CHR ''\<newline>''])) @ replicate 3 CHR ''a'')) \<and>
   \<not> list_ex (\<lambda>indicator. str_in indicator
       (lower (replicate 70 CHR ''a'' @ CHR ''\<newline>'' # replicate 90 CHR ''a'' @ CHR ''\<newline>'' #
        concat (replicate 35 (replicate 80 CHR ''a'' @ [CHR ''\<newline>''])) @ replicate 3 CHR ''a'')))
     cta_indicators \<and>
   \<not> str_in ''PS:''
       (replicate 70 CHR ''a'' @ CHR ''\<newline>'' # replicate 90 CHR ''a'' @ CHR ''\<newline>'' #
        concat (replicate 35 (replicate 80 CHR ''a'' @ [CHR ''\<newline>''])) @ replicate 3 CHR ''a'') \<and>
   \<not> str_in ''P.S.''
       (replicate 70 CHR ''a'' @ CHR ''\<newline>'' # replicate 90 CHR ''a'' @ CHR ''\<newline>'' #
        concat (replicate 35 (replicate 80 CHR ''a'' @ [CHR ''\<newline>''])) @ replicate 3 CHR ''a'') \<and>
   len (replicate 70 CHR ''a'' @ CHR ''\<newline>'' # replicate 90 CHR ''a'' @ CHR ''\<newline>'' #
        concat (replicate 35 (replicate 80 CHR ''a'' @ [CHR ''\<newline>''])) @ replicate 3 CHR ''a'') = 3000 \<and>
   fst (validate_checks
     (replicate 70 CHR ''a'' @ CHR ''\<newline>'' # replicate 90 CHR ''a'' @ CHR ''\<newline>'' #
      concat (replicate 35 (replicate 80 CHR ''a'' @ [CHR ''\<newline>''])) @ replicate 3 CHR ''a'')) \<noteq> 0"
proof -
  let ?T = "replicate 70 CHR ''a'' @ CHR ''\<newline>'' # replicate 90 CHR ''a'' @ CHR ''\<newline>'' #
        concat (replicate 35 (replicate 80 CHR ''a'' @ [CHR ''\<newline>''])) @ replicate 3 CHR ''a''"
  have "length (filter (\<lambda>line. len line > 80 \<and> strip line \<noteq> []) (split_sep CHR ''\<newline>'' ?T)) \<le> 1"
    using length_filter_conj_le [of "\<lambda>line. len line > 80" "\<lambda>line. strip line \<noteq> []"
        "split_sep CHR ''\<newline>'' ?T"] long_line_text_facts(1)
    by simp
  then have "\<not> 2 < length (filter (\<lambda>line. len line > 80 \<and> strip line \<noteq> [])
      (split_sep CHR ''\<newline>'' ?T))"
    by simp
  then have "20 \<le> fst (validate_checks ?T)"
    unfolding validate_score by simp
  then have "fst (validate_checks ?T) \<noteq> 0"
    by simp
  with long_line_text_facts show ?thesis by blast
qed

section \<open>Properties of the Hashtag Recommender\<close>

lemma lower_char_idem: "lower_char (lower_char c) = lower_char c"
  by (auto simp: lower_char_def Let_def)

lemma lower_idem: "lower (lower s) = lower s"
  by (simp add: lower_def lower_char_idem)

text \<open>\<open>fromkeys\<close> removes duplicates and keeps each element at its first occurrence.\<close>

lemma fromkeys_foldl:
  "distinct acc \<Longrightarrow>
   distinct (foldl (\<lambda>d k. if k \<in> set d then d else d @ [k]) acc xs) \<and>
   set (foldl (\<lambda>d k. if k \<in> set d then d else d @ [k]) acc xs) = set acc \<union> set xs"
  by (induction xs arbitrary: acc) auto

lemma fromkeys_foldl_distinct:
  "distinct (acc @ xs) \<Longrightarrow> foldl (\<lambda>d k. if k \<in> set d then d else d @ [k]) acc xs = acc @ xs"
  by (induction xs arbitrary: acc) auto

lemma remdups_snoc: "remdups (ys @ [x]) = remdups (filter (\<lambda>y. y \<noteq> x) ys) @ [x]"
  by (induction ys) auto

lemma fromkeys_foldl_first:
  "foldl (\<lambda>d k. if k \<in> set d then d else d @ [k]) acc xs =
   acc @ rev (remdups (rev (filter (\<lambda>x. x \<notin> set acc) xs)))"
proof (induction xs arbitrary: acc)
  case Nil
  then show ?case by simp
next
  case (Cons x xs)
  show ?case
  proof (cases "x \<in> set acc")
    case True
    then show ?thesis using Cons.IH [of acc] by simp
  next
    case False
    have "filter (\<lambda>y. y \<notin> set (acc @ [x])) xs = filter (\<lambda>y. y \<noteq> x) (filter (\<lambda>y. y \<notin> set acc) xs)"
      by (induction xs) auto
    moreover have "remdups (rev ys @ [x]) = remdups (rev (filter (\<lambda>y. y \<noteq> x) ys)) @ [x]" for ys
      by (simp add: remdups_snoc rev_filter)
    ultimately show ?thesis using False Cons.IH [of "acc @ [x]"] by simp
  qed
qed

lemma fromkeys_distinct: "distinct (fromkeys xs)"
  using fromkeys_foldl [of "[]" xs] by (simp add: fromkeys_def)

lemma fromkeys_id: "distinct xs \<Longrightarrow> fromkeys xs = xs"
  using fromkeys_foldl_distinct [of "[]" xs] by (simp add: fromkeys_def)

lemma fromkeys_first_occurrence: "fromkeys xs = rev (remdups (rev xs))"
  using fromkeys_foldl_first [of "[]" xs] by (simp add: fromkeys_def)

text \<open>The code's four \<open>if\<close> statements compute the table reading of the rules.\<close>

lemma topic_suggested_rules: "topic_suggested topic = matched_topic_hashtags topic"
  by (simp add: topic_suggested_def matched_topic_hashtags_def topic_keyword_rules_def Let_def)

text \<open>The possible first two entries of an industry list and of the topic list.\<close>

lemma industry_first_two:
  "take 2 (dict_get industry_hashtags k) \<in>
     set [[], [''#Technology'', ''#Innovation''], [''#Marketing'', ''#DigitalMarketing''],
          [''#Leadership'', ''#Management''], [''#Entrepreneur'', ''#Startup''],
          [''#Finance'', ''#Investing''], [''#Sales'', ''#B2B''],
          [''#HumanResources'', ''#Recruiting''], [''#Consulting'', ''#Strategy'']]"
  by (simp add: dict_get_def industry_hashtags_def)

lemma topic_first_two:
  "take 2 (topic_suggested topic) \<in>
     set [[], [''#Learning'', ''#ProfessionalDevelopment''], [''#Success'', ''#Achievement''],
          [''#Teamwork'', ''#Collaboration''], [''#Tips'', ''#Advice'']]"
  by (simp add: topic_suggested_def Let_def)

lemma hashtag_lists_distinct:
  "list_all (\<lambda>a. list_all (\<lambda>b. distinct (a @ b @ [''#LinkedIn'']) \<and> length (a @ b @ [''#LinkedIn'']) \<le> 5)
       [[], [''#Learning'', ''#ProfessionalDevelopment''], [''#Success'', ''#Achievement''],
        [''#Teamwork'', ''#Collaboration''], [''#Tips'', ''#Advice'']])
     [[], [''#Technology'', ''#Innovation''], [''#Marketing'', ''#DigitalMarketing''],
      [''#Leadership'', ''#Management''], [''#Entrepreneur'', ''#Startup''],
      [''#Finance'', ''#Investing''], [''#Sales'', ''#B2B''],
      [''#HumanResources'', ''#Recruiting''], [''#Consulting'', ''#Strategy'']]"
  by code_simp

lemma final_hashtags_distinct:
  "distinct (take 2 (dict_get industry_hashtags k) @ take 2 (topic_suggested topic) @ [''#LinkedIn'']) \<and>
   length (take 2 (dict_get industry_hashtags k) @ take 2 (topic_suggested topic) @ [''#LinkedIn'']) \<le> 5"
  using hashtag_lists_distinct industry_first_two [of k] topic_first_two [of topic]
  unfolding list_all_iff by blast

text \<open>No entry is ever removed: the result is the industry part, the topic part and
  the first general hashtag.\<close>

lemma final_hashtags_eq:
  "final_hashtags topic industry =
     take 2 (dict_get industry_hashtags (lower industry)) @ take 2 (topic_suggested topic) @
     [''#LinkedIn'']"
proof -
  have "final_hashtags topic industry =
      take 5 (fromkeys (take 2 (dict_get industry_hashtags (lower industry)) @
        take 2 (topic_suggested topic) @ [''#LinkedIn'']))"
    by (simp add: final_hashtags_def general_hashtags_def Let_def)
  then show ?thesis
    using final_hashtags_distinct [of "lower industry" topic]
    by (simp only: fromkeys_id take_all)
qed

lemma industry_table:
  "dict_get industry_hashtags k =
     (if k = ''tech'' then [''#Technology'', ''#Innovation'', ''#AI'', ''#Software'', ''#TechTrends'']
      else if k = ''marketing'' then [''#Marketing'', ''#DigitalMarketing'', ''#ContentMarketing'', ''#Branding'', ''#SocialMedia'']
      else if k = ''leadership'' then [''#Leadership'', ''#Management'', ''#TeamBuilding'', ''#ExecutiveCoaching'', ''#WorkplaceCulture'']
      else if k = ''entrepreneurship'' then [''#Entrepreneur'', ''#Startup'', ''#SmallBusiness'', ''#Innovation'', ''#BusinessGrowth'']
      else if k = ''finance'' then [''#Finance'', ''#Investing'', ''#FinTech'', ''#Banking'', ''#Economics'']
      else if k = ''sales'' then [''#Sales'', ''#B2B'', ''#CustomerSuccess'', ''#SalesStrategy'', ''#Networking'']
      else if k = ''hr'' then [''#HumanResources'', ''#Recruiting'', ''#TalentAcquisition'', ''#WorkplaceCulture'', ''#EmployeeEngagement'']
      else if k = ''consulting'' then [''#Consulting'', ''#Strategy'', ''#BusinessConsulting'', ''#ProfessionalServices'', ''#Advisory'']
      else [])"
  by (simp add: dict_get_def industry_hashtags_def)

lemma hashtags_team_success: "final_hashtags ''team success tips'' ''tech'' =
     [''#Technology'', ''#Innovation'', ''#Success'', ''#Achievement'', ''#LinkedIn'']"
  by code_simp

lemma hashtags_unknown: "final_hashtags '''' ''unknown-industry'' = [''#LinkedIn'']"
  by code_simp

text \<open>
  Claim C1. For every topic and industry the Hashtag Recommender returns at most 5
  hashtags without duplicates. The list is the first-occurrence deduplication, cut to 5, of:
  up to the first 2 entries of the catalog list of the lower-cased industry (nothing for an
  unknown industry), then up to the first 2 hashtags of the keyword rules whose trigger
  occurs in the lower-cased topic, in the order of the rules, then the first general
  hashtag; no entry is in fact removed, so the result is that concatenation, and it depends
  on topic and industry through their lower-cased forms only. In particular
  suggest("team success tips", "tech") gives the first two tech entries, then the two topic
  entries, then the general entry, and suggest("", "unknown-industry") gives the general
  entry alone.
\<close>

theorem hashtags_at_most_5_ordered:
  "length (final_hashtags topic industry) \<le> 5 \<and>
   distinct (final_hashtags topic industry) \<and>
   final_hashtags topic industry =
     take 5 (fromkeys (take 2 (dict_get industry_hashtags (lower industry)) @
                       take 2 (matched_topic_hashtags topic) @ take 1 general_hashtags)) \<and>
   fromkeys (take 2 (dict_get industry_hashtags (lower industry)) @
             take 2 (matched_topic_hashtags topic) @ take 1 general_hashtags) =
     rev (remdups (rev (take 2 (dict_get industry_hashtags (lower industry)) @
                        take 2 (matched_topic_hashtags topic) @ take 1 general_hashtags))) \<and>
   final_hashtags topic industry =
     take 2 (dict_get industry_hashtags (lower industry)) @
     take 2 (matched_topic_hashtags topic) @ take 1 general_hashtags \<and>
   (lower industry \<notin> fst ` set industry_hashtags \<longrightarrow>
      dict_get industry_hashtags (lower industry) = []) \<and>
   final_hashtags topic industry = final_hashtags (lower topic) (lower industry) \<and>
   final_hashtags ''team success tips'' ''tech'' =
     take 2 (dict_get industry_hashtags ''tech'') @ [''#Success'', ''#Achievement''] @
     take 1 general_hashtags \<and>
   final_hashtags ''team success tips'' ''tech'' =
     [''#Technology'', ''#Innovation'', ''#Success'', ''#Achievement'', ''#LinkedIn''] \<and>
   length (final_hashtags '''' ''unknown-industry'') \<le> 1 \<and>
   final_hashtags '''' ''unknown-industry'' = [''#LinkedIn''] \<and>
   suggest_hashtags ''team success tips'' ''tech'' =
     ''Recommended hashtags: #Technology #Innovation #Success #Achievement #LinkedIn''"
proof -
  have eq: "final_hashtags topic industry =
     take 2 (dict_get industry_hashtags (lower industry)) @
     take 2 (matched_topic_hashtags topic) @ take 1 general_hashtags"
    by (simp add: final_hashtags_eq topic_suggested_rules general_hashtags_def)
  have d: "distinct (final_hashtags topic industry)" "length (final_hashtags topic industry) \<le> 5"
    using final_hashtags_distinct [of "lower industry" topic] by (simp_all add: final_hashtags_eq)
  have src: "final_hashtags topic industry =
     take 5 (fromkeys (take 2 (dict_get industry_hashtags (lower industry)) @
                       take 2 (matched_topic_hashtags topic) @ take 1 general_hashtags))"
    by (simp add: final_hashtags_def topic_suggested_rules Let_def)
  have unknown: "lower industry \<notin> fst ` set industry_hashtags \<longrightarrow>
      dict_get industry_hashtags (lower industry) = []"
  proof
    assume "lower industry \<notin> fst ` set industry_hashtags"
    then have "map_of industry_hashtags (lower industry) = None"
      by (simp add: map_of_eq_None_iff)
    then show "dict_get industry_hashtags (lower industry) = []"
      by (simp add: dict_get_def)
  qed
  have "topic_suggested (lower topic) = topic_suggested topic"
    by (simp add: topic_suggested_def lower_idem)
  then have ci: "final_hashtags topic industry = final_hashtags (lower topic) (lower industry)"
    by (simp add: final_hashtags_eq lower_idem)
  have ex1: "final_hashtags ''team success tips'' ''tech'' =
     take 2 (dict_get industry_hashtags ''tech'') @ [''#Success'', ''#Achievement''] @
     take 1 general_hashtags"
    by (simp add: hashtags_team_success industry_table general_hashtags_def)
  have ex3: "suggest_hashtags ''team success tips'' ''tech'' =
     ''Recommended hashtags: #Technology #Innovation #Success #Achievement #LinkedIn''"
    by (simp add: suggest_hashtags_def hashtags_team_success)
  have ex2: "length (final_hashtags '''' ''unknown-industry'') \<le> 1"
    by (simp add: hashtags_unknown)
  from eq d src unknown ci ex1 ex2 ex3 hashtags_team_success hashtags_unknown
    fromkeys_first_occurrence
  show ?thesis by blast
qed

theorem hashtags_at_most_5_ordered_witness:
  "lower ''Biotech'' \<notin> fst ` set industry_hashtags \<and>
   dict_get industry_hashtags (lower ''Biotech'') = [] \<and>
   final_hashtags ''Team learning'' ''Biotech'' =
     [''#Learning'', ''#ProfessionalDevelopment'', ''#LinkedIn'']"
proof -
  have a: "lower ''Biotech'' \<notin> fst ` set industry_hashtags"
    by code_simp
  have "final_hashtags ''Team learning'' ''Biotech'' =
     [''#Learning'', ''#ProfessionalDevelopment'', ''#LinkedIn'']"
    by code_simp
  with a hashtags_at_most_5_ordered [of "''Team learning''" "''Biotech''"] show ?thesis
    by blast
qed

lemma join_snoc: "xs \<noteq> [] \<Longrightarrow> join sep (xs @ [x]) = join sep xs @ sep @ x"
  by (induction sep xs rule: join.induct) auto

lemma join_last: "\<exists>pre. join sep (xs @ [x]) = pre @ x"
proof (cases "xs = []")
  case True
  then show ?thesis by simp
next
  case False
  then have "join sep (xs @ [x]) = (join sep xs @ sep) @ x" by (simp add: join_snoc)
  then show ?thesis by blast
qed

text \<open>
  Claim C10. For every topic and industry the result of the Hashtag Recommender contains
  the first general hashtag "#LinkedIn", as its last entry, and so is never empty:
  "#LinkedIn" is in no industry list and in no topic rule, at most four entries stand
  before it, and neither the deduplication nor the cut to 5 entries removes it.
\<close>

theorem hashtags_never_empty:
  "''#LinkedIn'' \<in> set (final_hashtags topic industry) \<and>
   final_hashtags topic industry \<noteq> [] \<and>
   last (final_hashtags topic industry) = ''#LinkedIn'' \<and>
   hd general_hashtags = ''#LinkedIn'' \<and>
   ''#LinkedIn'' \<notin> set (concat (map snd industry_hashtags)) \<and>
   ''#LinkedIn'' \<notin> set (concat (map snd topic_keyword_rules)) \<and>
   ''#LinkedIn'' \<notin> set (topic_suggested topic) \<and>
   length (take 2 (dict_get industry_hashtags (lower industry)) @ take 2 (topic_suggested topic)) \<le> 4 \<and>
   (\<exists>tags. suggest_hashtags topic industry = ''Recommended hashtags: '' @ tags @ ''#LinkedIn'')"
proof -
  have a: "''#LinkedIn'' \<in> set (final_hashtags topic industry)"
    "final_hashtags topic industry \<noteq> []"
    "last (final_hashtags topic industry) = ''#LinkedIn''"
    by (simp_all add: final_hashtags_eq)
  have b: "hd general_hashtags = ''#LinkedIn''"
    by (simp add: general_hashtags_def)
  have c: "''#LinkedIn'' \<notin> set (concat (map snd industry_hashtags))"
    by code_simp
  have d: "''#LinkedIn'' \<notin> set (concat (map snd topic_keyword_rules))"
    by code_simp
  have e: "''#LinkedIn'' \<notin> set (topic_suggested topic)"
    by (simp add: topic_suggested_def Let_def)
  have f: "length (take 2 (dict_get industry_hashtags (lower industry)) @ take 2 (topic_suggested topic)) \<le> 4"
    by simp
  obtain pre where "join '' '' (final_hashtags topic industry) = pre @ ''#LinkedIn''"
    using join_last [of "'' ''" "take 2 (dict_get industry_hashtags (lower industry)) @ take 2 (topic_suggested topic)" "''#LinkedIn''"]
    by (auto simp: final_hashtags_eq)
  then have g: "\<exists>tags. suggest_hashtags topic industry = ''Recommended hashtags: '' @ tags @ ''#LinkedIn''"
    unfolding suggest_hashtags_def by blast
  from a b c d e f g show ?thesis by blast
qed

section \<open>Properties of the Reflow Formatter: line lengths\<close>

lemma split_ws_acc_words:
  "list_all (\<lambda>c. \<not> isspace c) acc \<Longrightarrow> w \<in> set (split_ws_acc s acc) \<Longrightarrow> is_word w"
proof (induction s arbitrary: acc)
  case Nil
  then show ?case by (cases "acc = []") (simp_all add: is_word_def)
next
  case (Cons c cs)
  show ?case
  proof (cases "isspace c")
    case True
    with Cons.prems(2) have "(w = acc \<and> acc \<noteq> []) \<or> w \<in> set (split_ws_acc cs [])"
      by (cases "acc = []") simp_all
    then show ?thesis
    proof
      assume "w = acc \<and> acc \<noteq> []"
      then show ?thesis using Cons.prems(1) by (simp add: is_word_def)
    next
      assume "w \<in> set (split_ws_acc cs [])"
      then show ?thesis using Cons.IH [of "[]"] by simp
    qed
  next
    case False
    with Cons.prems(2) have "w \<in> set (split_ws_acc cs (acc @ [c]))" by simp
    moreover from False Cons.prems(1) have "list_all (\<lambda>c. \<not> isspace c) (acc @ [c])" by simp
    ultimately show ?thesis using Cons.IH [of "acc @ [c]"] by simp
  qed
qed

lemma split_ws_words: "w \<in> set (split_ws s) \<Longrightarrow> is_word w"
  unfolding split_ws_def using split_ws_acc_words [of "[]" w s] by simp

lemma current_ok_Nil: "current_ok []"
  by (simp add: current_ok_def)

lemma current_ok_word: "is_word w \<Longrightarrow> current_ok [w]"
  by (simp add: current_ok_def)

lemma current_ok_short: "\<not> len (join '' '' current_line) > 15 \<Longrightarrow> current_ok current_line"
  by (simp add: current_ok_def len_def)

lemma current_ok_line: "current_ok current_line \<Longrightarrow> line_ok (join '' '' current_line)"
  by (auto simp: current_ok_def line_ok_def split: list.splits)

lemma chunk_words_step:
  "chunk_words (word # words) (lines, current_line) =
     (if len (join '' '' (current_line @ [word])) > 15 then
        (if current_line \<noteq> []
         then chunk_words words (lines @ [join '' '' current_line], [word])
         else chunk_words words (lines @ [word], []))
      else chunk_words words (lines, current_line @ [word]))"
  by (cases current_line) (simp_all add: Let_def)

lemma chunk_words_first:
  "len (join '' '' (current_line @ [word])) > 15 \<Longrightarrow> current_line = [] \<Longrightarrow>
   chunk_words (word # words) (lines, current_line) = chunk_words words (lines @ [word], [])"
  by (simp add: chunk_words_step)

lemma chunk_words_flush:
  "len (join '' '' (current_line @ [word])) > 15 \<Longrightarrow> current_line \<noteq> [] \<Longrightarrow>
   chunk_words (word # words) (lines, current_line) =
   chunk_words words (lines @ [join '' '' current_line], [word])"
  by (simp add: chunk_words_step)

lemma chunk_words_keep:
  "\<not> len (join '' '' (current_line @ [word])) > 15 \<Longrightarrow>
   chunk_words (word # words) (lines, current_line) = chunk_words words (lines, current_line @ [word])"
  by (simp add: chunk_words_step)

declare chunk_words.simps(2) [simp del]

lemma chunk_words_lines:
  "list_all is_word words \<Longrightarrow> list_all line_ok lines \<Longrightarrow> current_ok current_line \<Longrightarrow>
   list_all line_ok (fst (chunk_words words (lines, current_line))) \<and>
   current_ok (snd (chunk_words words (lines, current_line)))"
proof (induction words arbitrary: lines current_line)
  case Nil
  then show ?case by simp
next
  case (Cons word words)
  from Cons.prems(1) have word: "is_word word" and rest: "list_all is_word words"
    by simp_all
  show ?case
  proof (cases "len (join '' '' (current_line @ [word])) > 15")
    case over: True
    show ?thesis
    proof (cases "current_line = []")
      case True
      have "line_ok word"
        using word by (simp add: line_ok_def)
      then have "list_all line_ok (lines @ [word])"
        using Cons.prems(2) by simp
      from Cons.IH [OF rest this current_ok_Nil] show ?thesis
        by (simp only: chunk_words_first [OF over True])
    next
      case False
      have "list_all line_ok (lines @ [join '' '' current_line])"
        using Cons.prems(2) current_ok_line [OF Cons.prems(3)] by simp
      from Cons.IH [OF rest this current_ok_word [OF word]] show ?thesis
        by (simp only: chunk_words_flush [OF over False])
    qed
  next
    case False
    from Cons.IH [OF rest Cons.prems(2) current_ok_short [OF False]] show ?thesis
      by (simp only: chunk_words_keep [OF False])
  qed
qed

lemma reflow_sentence_lines:
  assumes "list_all line_ok lines"
  shows "list_all line_ok (reflow_sentence lines sentence)"
proof (cases "strip sentence \<noteq> [] \<and> len (strip sentence) > 15")
  case True
  have words: "list_all is_word (split_ws (strip sentence))"
    using split_ws_words by (auto simp: list_all_iff)
  note ch = chunk_words_lines [OF words assms current_ok_Nil]
  have "list_all line_ok (fst (chunk_words (split_ws (strip sentence)) (lines, [])) @
      [join '' '' (snd (chunk_words (split_ws (strip sentence)) (lines, [])))])"
    using ch current_ok_line by simp
  then show ?thesis
    using True ch by (simp add: reflow_sentence_def Let_def split_def)
next
  case False
  then show ?thesis
    using assms by (auto simp: reflow_sentence_def Let_def len_def line_ok_def)
qed

lemma reflow_loop_lines:
  "list_all line_ok lines \<Longrightarrow> list_all line_ok (reflow_loop sentences lines)"
proof (induction sentences arbitrary: lines)
  case Nil
  then show ?case by simp
next
  case (Cons s ss)
  from Cons.IH [OF reflow_sentence_lines [OF Cons.prems]] show ?case by simp
qed

lemma spacing_loop_set:
  "set (spacing_loop n xs acc) \<subseteq> set acc \<union> snd ` set xs \<union> {[]}"
proof (induction xs arbitrary: acc)
  case Nil
  then show ?case by auto
next
  case (Cons x xs)
  obtain i line where x: "x = (i, line)" by (cases x)
  show ?case
    using Cons.IH [of "acc @ [line] @ [[]]"] Cons.IH [of "acc @ [line]"]
    by (auto simp: x Let_def)
qed

lemma formatted_lines_subset:
  "set (formatted_lines_of content) \<subseteq> set (reflow_loop (sentences_of content) []) \<union> {[]}"
proof -
  have "map snd (enumerate 0 (reflow_loop (sentences_of content) [])) =
      reflow_loop (sentences_of content) []"
    by (rule map_snd_enumerate)
  then have "snd ` set (enumerate 0 (reflow_loop (sentences_of content) [])) =
      set (reflow_loop (sentences_of content) [])"
    by (metis list.set_map)
  then show ?thesis
    using spacing_loop_set [of "int (length (reflow_loop (sentences_of content) []))"
        "enumerate 0 (reflow_loop (sentences_of content) [])" "[]"]
    by (simp add: formatted_lines_of_def Let_def)
qed

lemma formatted_line_ok:
  assumes "line \<in> set (formatted_lines_of content)" and "line \<noteq> []"
  shows "line_ok line"
proof -
  have "list_all line_ok (reflow_loop (sentences_of content) [])"
    by (rule reflow_loop_lines) simp
  moreover have "line \<in> set (reflow_loop (sentences_of content) [])"
    using assms formatted_lines_subset by blast
  ultimately show ?thesis by (simp add: list_all_iff)
qed


section \<open>Properties of the Reflow Formatter: the words are kept\<close>

lemma split_ws_acc_space:
  "isspace c \<Longrightarrow> split_ws_acc (a @ c # b) w = split_ws_acc a w @ split_ws_acc b []"
  by (induction a arbitrary: w) simp_all

lemma split_ws_space: "isspace c \<Longrightarrow> split_ws (a @ c # b) = split_ws a @ split_ws b"
  by (simp add: split_ws_def split_ws_acc_space)

lemma split_ws_acc_nonspace:
  "list_all (\<lambda>c. \<not> isspace c) a \<Longrightarrow> split_ws_acc (a @ s) w = split_ws_acc s (w @ a)"
  by (induction a arbitrary: w) simp_all

lemma split_ws_word: "is_word w \<Longrightarrow> split_ws w = [w]"
  using split_ws_acc_nonspace [of w "[]" "[]"] by (simp add: split_ws_def is_word_def)

lemma split_ws_Nil: "split_ws [] = []"
  by (simp add: split_ws_def)

lemma isspace_space: "isspace CHR '' ''"
  by (simp add: isspace_def)

lemma isspace_newline: "isspace CHR ''\<newline>''"
  by (simp add: isspace_def)

text \<open>Joining with one white-space character keeps the words of every piece.\<close>

lemma split_ws_join: "isspace c \<Longrightarrow> split_ws (join [c] ls) = concat (map split_ws ls)"
proof (induction "[c]" ls rule: join.induct)
  case 1
  then show ?case by (simp add: split_ws_Nil)
next
  case (2 x)
  then show ?case by simp
next
  case (3 x y ys)
  then show ?case by (simp add: split_ws_space)
qed

lemma split_ws_join_words:
  "list_all is_word ws \<Longrightarrow> split_ws (join '' '' ws) = ws"
proof -
  assume ws: "list_all is_word ws"
  have "concat (map split_ws ws) = ws"
    using ws by (induction ws) (simp_all add: split_ws_word)
  then show ?thesis
    using split_ws_join [OF isspace_space, of ws] by simp
qed

lemma split_sep_not_Nil: "split_sep sep s \<noteq> []"
  by (induction s) (simp_all split: list.splits)

lemma join_split_sep: "join [sep] (split_sep sep s) = s"
proof (induction s)
  case Nil
  then show ?case by simp
next
  case (Cons c cs)
  obtain l ls where l: "split_sep sep cs = l # ls"
    using split_sep_not_Nil [of sep cs] by (cases "split_sep sep cs") auto
  show ?case
  proof (cases "c = sep")
    case True
    then show ?thesis using Cons.IH l by simp
  next
    case False
    have "join [sep] ((c # l) # ls) = c # join [sep] (l # ls)"
      by (cases ls) simp_all
    then show ?thesis using Cons.IH l False by simp
  qed
qed

lemma split_ws_lines: "split_ws s = concat (map split_ws (split_sep CHR ''\<newline>'' s))"
  using split_ws_join [OF isspace_newline, of "split_sep CHR ''\<newline>'' s"]
  by (simp add: join_split_sep)

text \<open>\<open>strip\<close> removes no word.\<close>

lemma split_ws_dropWhile: "split_ws (dropWhile isspace s) = split_ws s"
  by (induction s) (simp_all add: split_ws_def)

lemma split_ws_strip_right: "split_ws (rev (dropWhile isspace (rev s))) = split_ws s"
proof (induction s rule: rev_induct)
  case Nil
  then show ?case by simp
next
  case (snoc c s)
  show ?case
  proof (cases "isspace c")
    case True
    have "split_ws (s @ [c]) = split_ws s"
      using split_ws_space [OF True, of s "[]"] by (simp add: split_ws_Nil)
    then show ?thesis using True snoc.IH by simp
  next
    case False
    then show ?thesis by simp
  qed
qed

lemma split_ws_strip: "split_ws (strip s) = split_ws s"
  by (simp add: strip_def split_ws_strip_right split_ws_dropWhile)

text \<open>The inner loop hands every word on, in order: the words of the finished lines,
  then the words of the running line, are the words already there and the words read.\<close>

lemma chunk_words_words:
  "list_all is_word words \<Longrightarrow> list_all is_word current_line \<Longrightarrow>
   concat (map split_ws (fst (chunk_words words (lines, current_line)))) @
     snd (chunk_words words (lines, current_line)) =
   concat (map split_ws lines) @ current_line @ words \<and>
   list_all is_word (snd (chunk_words words (lines, current_line)))"
proof (induction words arbitrary: lines current_line)
  case Nil
  then show ?case by simp
next
  case (Cons word words)
  from Cons.prems(1) have word: "is_word word" and rest: "list_all is_word words"
    by simp_all
  show ?case
  proof (cases "len (join '' '' (current_line @ [word])) > 15")
    case over: True
    show ?thesis
    proof (cases "current_line = []")
      case True
      have "list_all is_word []" by simp
      from Cons.IH [OF rest this, of "lines @ [word]"] show ?thesis
        unfolding chunk_words_first [OF over True]
        by (simp add: True split_ws_word [OF word])
    next
      case False
      have "list_all is_word [word]" using word by simp
      from Cons.IH [OF rest this, of "lines @ [join '' '' current_line]"] show ?thesis
        unfolding chunk_words_flush [OF over False]
        by (simp add: split_ws_join_words [OF Cons.prems(2)])
    qed
  next
    case False
    have "list_all is_word (current_line @ [word])"
      using Cons.prems(2) word by simp
    from Cons.IH [OF rest this, of lines] show ?thesis
      unfolding chunk_words_keep [OF False] by simp
  qed
qed

lemma reflow_sentence_words:
  "concat (map split_ws (reflow_sentence lines sentence)) =
   concat (map split_ws lines) @ split_ws sentence"
proof (cases "strip sentence \<noteq> [] \<and> len (strip sentence) > 15")
  case True
  define r where "r = chunk_words (split_ws (strip sentence)) (lines, [])"
  have words: "list_all is_word (split_ws (strip sentence))"
    using split_ws_words by (auto simp: list_all_iff)
  have "list_all is_word []" by simp
  from chunk_words_words [OF words this, of lines]
  have ch: "concat (map split_ws (fst r)) @ snd r = concat (map split_ws lines) @ split_ws sentence"
    and cur: "list_all is_word (snd r)"
    unfolding r_def by (simp_all add: split_ws_strip)
  have rs: "reflow_sentence lines sentence =
      (if snd r \<noteq> [] then fst r @ [join '' '' (snd r)] else fst r)"
    using True by (simp add: reflow_sentence_def Let_def split_def r_def)
  show ?thesis
  proof (cases "snd r = []")
    case True
    with ch rs show ?thesis by simp
  next
    case False
    with ch rs show ?thesis by (simp add: split_ws_join_words [OF cur])
  qed
next
  case False
  show ?thesis
  proof (cases "strip sentence = []")
    case True
    then have "split_ws sentence = []"
      using split_ws_strip [of sentence] by (simp add: split_ws_Nil)
    then show ?thesis using True by (simp add: reflow_sentence_def)
  next
    case nonempty: False
    then show ?thesis
      using False by (simp add: reflow_sentence_def Let_def split_ws_strip)
  qed
qed

lemma reflow_loop_words:
  "concat (map split_ws (reflow_loop sentences lines)) =
   concat (map split_ws lines) @ concat (map split_ws sentences)"
  by (induction sentences arbitrary: lines) (simp_all add: reflow_sentence_words)

lemma spacing_loop_words:
  "concat (map split_ws (spacing_loop n xs acc)) =
   concat (map split_ws acc) @ concat (map split_ws (map snd xs))"
proof (induction xs arbitrary: acc)
  case Nil
  then show ?case by simp
next
  case (Cons x xs)
  obtain i line where x: "x = (i, line)" by (cases x)
  show ?case
    using Cons.IH [of "acc @ [line] @ [[]]"] Cons.IH [of "acc @ [line]"]
    by (simp add: x Let_def split_ws_Nil)
qed

lemma concat_split_ws_filter:
  "concat (map split_ws (filter (\<lambda>l. l \<noteq> []) ls)) = concat (map split_ws ls)"
  by (induction ls) (simp_all add: split_ws_Nil)

lemma formatted_lines_words:
  "split_ws (join '' '' (filter (\<lambda>l. l \<noteq> []) (formatted_lines_of content))) =
   split_ws (replace CHR ''?'' ''?\<newline>'' (replace CHR ''!'' ''!\<newline>''
     (replace CHR ''.'' ''.\<newline>'' content)))"
proof -
  let ?lines = "reflow_loop (sentences_of content) []"
  have "split_ws (join '' '' (filter (\<lambda>l. l \<noteq> []) (formatted_lines_of content))) =
      concat (map split_ws (formatted_lines_of content))"
    using split_ws_join [OF isspace_space] by (simp add: concat_split_ws_filter)
  also have "\<dots> = concat (map split_ws ?lines)"
    by (simp add: formatted_lines_of_def Let_def spacing_loop_words map_snd_enumerate)
  also have "\<dots> = concat (map split_ws (sentences_of content))"
    by (simp add: reflow_loop_words)
  also have "\<dots> = split_ws (replace CHR ''?'' ''?\<newline>'' (replace CHR ''!'' ''!\<newline>''
     (replace CHR ''.'' ''.\<newline>'' content)))"
    unfolding sentences_of_def by (rule split_ws_lines [symmetric])
  finally show ?thesis .
qed


section \<open>Properties of the Reflow Formatter: long words and sentence marks\<close>

lemma join_snoc_length: "length w \<le> length (join sep (xs @ [w]))"
  by (cases "xs = []") (simp_all add: join_snoc)

lemma chunk_words_mono: "set lines \<subseteq> set (fst (chunk_words words (lines, current_line)))"
proof (induction words arbitrary: lines current_line)
  case Nil
  then show ?case by simp
next
  case (Cons word words)
  show ?case
  proof (cases "len (join '' '' (current_line @ [word])) > 15")
    case over: True
    show ?thesis
    proof (cases "current_line = []")
      case True
      have "set lines \<subseteq> set (lines @ [word])" by auto
      also have "\<dots> \<subseteq> set (fst (chunk_words words (lines @ [word], [])))"
        by (rule Cons.IH)
      finally show ?thesis unfolding chunk_words_first [OF over True] .
    next
      case False
      have "set lines \<subseteq> set (lines @ [join '' '' current_line])" by auto
      also have "\<dots> \<subseteq> set (fst (chunk_words words (lines @ [join '' '' current_line], [word])))"
        by (rule Cons.IH)
      finally show ?thesis unfolding chunk_words_flush [OF over False] .
    qed
  next
    case False
    show ?thesis unfolding chunk_words_keep [OF False] by (rule Cons.IH)
  qed
qed

text \<open>A word of more than 15 characters ends up as a line of its own.\<close>

lemma chunk_words_long:
  "length w > 15 \<Longrightarrow> w \<in> set words \<or> current_line = [w] \<Longrightarrow>
   w \<in> set (fst (chunk_words words (lines, current_line))) \<or>
   snd (chunk_words words (lines, current_line)) = [w]"
proof (induction words arbitrary: lines current_line)
  case Nil
  then show ?case by simp
next
  case (Cons word words)
  show ?case
  proof (cases "current_line = [w]")
    case True
    have "length (join '' '' ([w] @ [word])) > 15"
      using Cons.prems(1) by simp
    then have over: "len (join '' '' (current_line @ [word])) > 15"
      using True by (simp add: len_def)
    have ne: "current_line \<noteq> []" using True by simp
    have "w \<in> set (lines @ [join '' '' current_line])"
      using True by simp
    then have "w \<in> set (fst (chunk_words words (lines @ [join '' '' current_line], [word])))"
      using chunk_words_mono by blast
    then show ?thesis
      unfolding chunk_words_flush [OF over ne] by simp
  next
    case False
    with Cons.prems(2) have mem: "w = word \<or> w \<in> set words" by auto
    show ?thesis
    proof (cases "w = word")
      case True
      have "length (join '' '' (current_line @ [word])) > 15"
        using join_snoc_length [of word "'' ''" current_line] Cons.prems(1) True by simp
      then have over: "len (join '' '' (current_line @ [word])) > 15"
        by (simp add: len_def)
      show ?thesis
      proof (cases "current_line = []")
        case empty: True
        have "w \<in> set (lines @ [word])" using True by simp
        then have "w \<in> set (fst (chunk_words words (lines @ [word], [])))"
          using chunk_words_mono by blast
        then show ?thesis
          unfolding chunk_words_first [OF over empty] by simp
      next
        case nonempty: False
        have "w \<in> set words \<or> [word] = [w]" using True by simp
        from Cons.IH [OF Cons.prems(1) this] show ?thesis
          unfolding chunk_words_flush [OF over nonempty] by simp
      qed
    next
      case False
      with mem have inw: "w \<in> set words \<or> cl = [w]" for cl by simp
      show ?thesis
      proof (cases "len (join '' '' (current_line @ [word])) > 15")
        case over: True
        show ?thesis
        proof (cases "current_line = []")
          case True
          show ?thesis
            unfolding chunk_words_first [OF over True] by (rule Cons.IH [OF Cons.prems(1) inw])
        next
          case nonempty: False
          show ?thesis
            unfolding chunk_words_flush [OF over nonempty] by (rule Cons.IH [OF Cons.prems(1) inw])
        qed
      next
        case notover: False
        show ?thesis
          unfolding chunk_words_keep [OF notover] by (rule Cons.IH [OF Cons.prems(1) inw])
      qed
    qed
  qed
qed

lemma split_ws_acc_length:
  "w \<in> set (split_ws_acc s acc) \<Longrightarrow> length w \<le> length acc + length s"
proof (induction s arbitrary: acc)
  case Nil
  then show ?case by (cases "acc = []") simp_all
next
  case (Cons c cs)
  show ?case
  proof (cases "isspace c")
    case True
    with Cons.prems have "w = acc \<or> w \<in> set (split_ws_acc cs [])"
      by (cases "acc = []") simp_all
    then show ?thesis using Cons.IH [of "[]"] by auto
  next
    case False
    with Cons.prems have "w \<in> set (split_ws_acc cs (acc @ [c]))" by simp
    then show ?thesis using Cons.IH [of "acc @ [c]"] by simp
  qed
qed

lemma split_ws_length: "w \<in> set (split_ws s) \<Longrightarrow> length w \<le> length s"
  using split_ws_acc_length [of w s "[]"] by (simp add: split_ws_def)

lemma reflow_sentence_cases:
  "reflow_sentence lines sentence =
     (if strip sentence \<noteq> [] \<and> len (strip sentence) > 15 then
        (if snd (chunk_words (split_ws (strip sentence)) (lines, [])) \<noteq> []
         then fst (chunk_words (split_ws (strip sentence)) (lines, [])) @
              [join '' '' (snd (chunk_words (split_ws (strip sentence)) (lines, [])))]
         else fst (chunk_words (split_ws (strip sentence)) (lines, [])))
      else if strip sentence \<noteq> [] then lines @ [strip sentence]
      else lines)"
  by (simp add: reflow_sentence_def Let_def split_def)

lemma reflow_sentence_mono: "set lines \<subseteq> set (reflow_sentence lines sentence)"
proof -
  have "set lines \<subseteq> set (fst (chunk_words (split_ws (strip sentence)) (lines, [])))"
    by (rule chunk_words_mono)
  then show ?thesis
    unfolding reflow_sentence_cases by auto
qed

lemma reflow_sentence_long:
  assumes "w \<in> set (split_ws sentence)" and "length w > 15"
  shows "w \<in> set (reflow_sentence lines sentence)"
proof -
  define r where "r = chunk_words (split_ws (strip sentence)) (lines, [])"
  from assms(1) have w: "w \<in> set (split_ws (strip sentence))"
    by (simp add: split_ws_strip)
  then have "length w \<le> length (strip sentence)"
    by (rule split_ws_length)
  with assms(2) have long: "strip sentence \<noteq> [] \<and> len (strip sentence) > 15"
    by (auto simp: len_def)
  then have rs: "reflow_sentence lines sentence =
      (if snd r \<noteq> [] then fst r @ [join '' '' (snd r)] else fst r)"
    by (simp add: reflow_sentence_def Let_def split_def r_def)
  from w have "w \<in> set (split_ws (strip sentence)) \<or> [] = [w]" by simp
  from chunk_words_long [OF assms(2) this, of lines]
  have "w \<in> set (fst r) \<or> snd r = [w]" by (simp add: r_def)
  then show ?thesis unfolding rs by auto
qed

lemma reflow_loop_mono: "set lines \<subseteq> set (reflow_loop sentences lines)"
proof (induction sentences arbitrary: lines)
  case Nil
  then show ?case by simp
next
  case (Cons s ss)
  show ?case
    using Cons.IH [of "reflow_sentence lines s"] reflow_sentence_mono [of lines s] by auto
qed

lemma reflow_loop_long:
  "sentence \<in> set sentences \<Longrightarrow> w \<in> set (split_ws sentence) \<Longrightarrow> length w > 15 \<Longrightarrow>
   w \<in> set (reflow_loop sentences lines)"
proof (induction sentences arbitrary: lines)
  case Nil
  then show ?case by simp
next
  case (Cons s ss)
  show ?case
  proof (cases "sentence = s")
    case True
    then have "w \<in> set (reflow_sentence lines s)"
      using reflow_sentence_long [OF _ Cons.prems(3)] Cons.prems(2) by simp
    then show ?thesis
      using reflow_loop_mono [of "reflow_sentence lines s" ss] by auto
  next
    case False
    with Cons.prems(1) have "sentence \<in> set ss" by simp
    from Cons.IH [OF this Cons.prems(2,3)] show ?thesis by simp
  qed
qed

lemma spacing_loop_keeps: "set acc \<union> snd ` set xs \<subseteq> set (spacing_loop n xs acc)"
proof (induction xs arbitrary: acc)
  case Nil
  then show ?case by simp
next
  case (Cons x xs)
  obtain i line where x: "x = (i, line)" by (cases x)
  show ?case
    using Cons.IH [of "acc @ [line] @ [[]]"] Cons.IH [of "acc @ [line]"]
    by (auto simp: x Let_def)
qed

lemma formatted_lines_long_word:
  assumes "w \<in> set (split_ws (replace CHR ''?'' ''?\<newline>'' (replace CHR ''!'' ''!\<newline>''
     (replace CHR ''.'' ''.\<newline>'' content))))"
    and "length w > 15"
  shows "w \<in> set (formatted_lines_of content)"
proof -
  have eq: "split_ws (replace CHR ''?'' ''?\<newline>'' (replace CHR ''!'' ''!\<newline>''
      (replace CHR ''.'' ''.\<newline>'' content))) = concat (map split_ws (sentences_of content))"
    unfolding sentences_of_def by (rule split_ws_lines)
  from assms(1) have "w \<in> set (concat (map split_ws (sentences_of content)))"
    by (simp only: eq)
  then obtain sentence where "sentence \<in> set (sentences_of content)" "w \<in> set (split_ws sentence)"
    by auto
  then have "w \<in> set (reflow_loop (sentences_of content) [])"
    using reflow_loop_long assms(2) by blast
  moreover have "map snd (enumerate 0 (reflow_loop (sentences_of content) [])) =
      reflow_loop (sentences_of content) []"
    by (rule map_snd_enumerate)
  then have "snd ` set (enumerate 0 (reflow_loop (sentences_of content) [])) =
      set (reflow_loop (sentences_of content) [])"
    by (metis list.set_map)
  ultimately show ?thesis
    using spacing_loop_keeps [of "[]" "enumerate 0 (reflow_loop (sentences_of content) [])"
        "int (length (reflow_loop (sentences_of content) []))"]
    by (auto simp: formatted_lines_of_def Let_def)
qed


text \<open>Where every sentence mark ends a word, the line breaks put after the marks change
  no word.\<close>

lemma replace_Cons:
  "replace old new (c # cs) = (if c = old then new else [c]) @ replace old new cs"
  by (simp add: replace_def)

lemma replace_Nil: "replace old new [] = []"
  by (simp add: replace_def)

lemma marks_end_words_Cons: "c \<notin> set ms \<Longrightarrow> marks_end_words ms (c # s) = marks_end_words ms s"
  by (cases s) simp_all

lemma split_ws_acc_replace:
  "\<not> isspace m \<Longrightarrow> marks_end_words [m] s \<Longrightarrow>
   split_ws_acc (replace m [m, CHR ''\<newline>''] s) w = split_ws_acc s w"
proof (induction "[m]" s arbitrary: w rule: marks_end_words.induct)
  case 1
  then show ?case by (simp add: replace_Nil)
next
  case (2 c)
  then show ?case by (simp add: replace_Cons replace_Nil isspace_newline)
next
  case (3 c d cs)
  from "3.prems" have tail: "marks_end_words [m] (d # cs)" by simp
  note IH = "3.hyps" [OF "3.prems"(1) tail]
  show ?case
  proof (cases "c = m")
    case True
    with "3.prems" have d: "isspace d" by simp
    have r: "replace m [m, CHR ''\<newline>''] (c # d # cs) =
        m # CHR ''\<newline>'' # replace m [m, CHR ''\<newline>''] (d # cs)"
      using True by (simp add: replace_Cons)
    have "split_ws_acc (m # CHR ''\<newline>'' # replace m [m, CHR ''\<newline>''] (d # cs)) w =
        (w @ [m]) # split_ws_acc (replace m [m, CHR ''\<newline>''] (d # cs)) []"
      using "3.prems"(1) by (simp add: isspace_newline)
    also have "\<dots> = (w @ [m]) # split_ws_acc (d # cs) []"
      by (simp only: IH)
    also have "\<dots> = split_ws_acc (m # d # cs) w"
      using "3.prems"(1) d by simp
    finally show ?thesis unfolding r using True by simp
  next
    case False
    have r: "replace m [m, CHR ''\<newline>''] (c # d # cs) =
        c # replace m [m, CHR ''\<newline>''] (d # cs)"
      using False by (simp add: replace_Cons)
    show ?thesis
      unfolding r by (cases "isspace c"; cases "w = []") (simp_all add: IH)
  qed
qed

lemma marks_end_words_replace:
  "a \<noteq> b \<Longrightarrow> \<not> isspace a \<Longrightarrow> \<not> isspace b \<Longrightarrow> marks_end_words [a] s \<Longrightarrow>
   marks_end_words [a] (replace b [b, CHR ''\<newline>''] s)"
proof (induction "[a]" s rule: marks_end_words.induct)
  case 1
  then show ?case by (simp add: replace_Nil)
next
  case (2 c)
  then show ?case by (cases "c = b") (simp_all add: replace_Cons replace_Nil)
next
  case (3 c d cs)
  from "3.prems" have tail: "marks_end_words [a] (d # cs)" by simp
  note IH = "3.hyps" [OF "3.prems"(1,2,3) tail]
  from "3.prems"(2) have nl: "CHR ''\<newline>'' \<noteq> a"
    using isspace_newline by auto
  show ?case
  proof (cases "c = a")
    case True
    with "3.prems" have d: "isspace d" by simp
    with "3.prems"(3) have db: "d \<noteq> b" by auto
    have "replace b [b, CHR ''\<newline>''] (c # d # cs) = a # d # replace b [b, CHR ''\<newline>''] cs"
      using True "3.prems"(1) db by (simp add: replace_Cons)
    moreover have "replace b [b, CHR ''\<newline>''] (d # cs) = d # replace b [b, CHR ''\<newline>''] cs"
      using db by (simp add: replace_Cons)
    ultimately show ?thesis using IH d by simp
  next
    case False
    show ?thesis
    proof (cases "c = b")
      case True
      have "replace b [b, CHR ''\<newline>''] (c # d # cs) =
          b # CHR ''\<newline>'' # replace b [b, CHR ''\<newline>''] (d # cs)"
        using True by (simp add: replace_Cons)
      then show ?thesis
        using IH "3.prems"(1) nl by (simp add: marks_end_words_Cons)
    next
      case notb: False
      have "replace b [b, CHR ''\<newline>''] (c # d # cs) =
          c # replace b [b, CHR ''\<newline>''] (d # cs)"
        using notb by (simp add: replace_Cons)
      then show ?thesis
        using IH False by (simp add: marks_end_words_Cons)
    qed
  qed
qed

lemma marks_end_words_subset:
  "set ms' \<subseteq> set ms \<Longrightarrow> marks_end_words ms s \<Longrightarrow> marks_end_words ms' s"
  by (induction ms s rule: marks_end_words.induct) auto

lemma split_ws_broken:
  assumes "marks_end_words ''.!?'' content"
  shows "split_ws (replace CHR ''?'' ''?\<newline>'' (replace CHR ''!'' ''!\<newline>''
     (replace CHR ''.'' ''.\<newline>'' content))) = split_ws content"
proof -
  have ns: "\<not> isspace CHR ''.''" "\<not> isspace CHR ''!''" "\<not> isspace CHR ''?''"
    by (simp_all add: isspace_def)
  have dot: "marks_end_words ''.'' content"
    by (rule marks_end_words_subset [OF _ assms]) simp
  have bang: "marks_end_words ''!'' content"
    by (rule marks_end_words_subset [OF _ assms]) simp
  have quest: "marks_end_words ''?'' content"
    by (rule marks_end_words_subset [OF _ assms]) simp
  have bang1: "marks_end_words ''!'' (replace CHR ''.'' ''.\<newline>'' content)"
    by (rule marks_end_words_replace [OF _ ns(2) ns(1) bang]) simp
  have quest1: "marks_end_words ''?'' (replace CHR ''.'' ''.\<newline>'' content)"
    by (rule marks_end_words_replace [OF _ ns(3) ns(1) quest]) simp
  have quest2: "marks_end_words ''?'' (replace CHR ''!'' ''!\<newline>''
      (replace CHR ''.'' ''.\<newline>'' content))"
    by (rule marks_end_words_replace [OF _ ns(3) ns(2) quest1]) simp
  show ?thesis
    unfolding split_ws_def
    by (simp only: split_ws_acc_replace [OF ns(3) quest2] split_ws_acc_replace [OF ns(2) bang1]
        split_ws_acc_replace [OF ns(1) dot])
qed


section \<open>The claims about the Reflow Formatter\<close>

lemma formatted_word_of_text:
  assumes "line \<in> set (formatted_lines_of content)" and "is_word line"
  shows "line \<in> set (split_ws (replace CHR ''?'' ''?\<newline>'' (replace CHR ''!'' ''!\<newline>''
     (replace CHR ''.'' ''.\<newline>'' content))))"
proof -
  have "line \<in> set (split_ws line)"
    using split_ws_word [OF assms(2)] by simp
  with assms(1) have "line \<in> set (concat (map split_ws (formatted_lines_of content)))"
    by auto
  also have "concat (map split_ws (formatted_lines_of content)) =
      concat (map split_ws (filter (\<lambda>l. l \<noteq> []) (formatted_lines_of content)))"
    by (simp only: concat_split_ws_filter)
  also have "\<dots> = split_ws (join '' '' (filter (\<lambda>l. l \<noteq> []) (formatted_lines_of content)))"
    by (rule split_ws_join [OF isspace_space, symmetric])
  finally show ?thesis by (simp only: formatted_lines_words)
qed

text \<open>
  Claim C6. Every line of \<open>formatted_lines\<close> that is not blank has at most 15 characters,
  unless it is a single word of more than 15 characters: such a line is one word of the
  text (as broken after the sentence marks), free of white space, and every such word of
  the text is emitted as a line of its own. So every emitted line that contains a space,
  or any white space, has at most 15 characters. The text returned is a fixed heading, an
  empty line and these lines.
\<close>

theorem reflow_lines_at_most_15:
  "(\<forall>line \<in> set (formatted_lines_of content). line \<noteq> [] \<longrightarrow>
      (length line \<le> 15 \<or>
       (is_word line \<and>
        line \<in> set (split_ws (replace CHR ''?'' ''?\<newline>'' (replace CHR ''!'' ''!\<newline>''
          (replace CHR ''.'' ''.\<newline>'' content)))))) \<and>
      (CHR '' '' \<in> set line \<longrightarrow> length line \<le> 15) \<and>
      (list_ex isspace line \<longrightarrow> length line \<le> 15)) \<and>
   (\<forall>word \<in> set (split_ws (replace CHR ''?'' ''?\<newline>'' (replace CHR ''!'' ''!\<newline>''
          (replace CHR ''.'' ''.\<newline>'' content)))).
      length word > 15 \<longrightarrow> word \<in> set (formatted_lines_of content)) \<and>
   format_linkedin_post_correctly content =
     ''CORRECTLY FORMATTED VERSION:\<newline>\<newline>'' @ join ''\<newline>'' (formatted_lines_of content)"
proof -
  have lines: "(length line \<le> 15 \<or>
       (is_word line \<and>
        line \<in> set (split_ws (replace CHR ''?'' ''?\<newline>'' (replace CHR ''!'' ''!\<newline>''
          (replace CHR ''.'' ''.\<newline>'' content)))))) \<and>
      (CHR '' '' \<in> set line \<longrightarrow> length line \<le> 15) \<and>
      (list_ex isspace line \<longrightarrow> length line \<le> 15)"
    if mem: "line \<in> set (formatted_lines_of content)" and ne: "line \<noteq> []" for line
  proof -
    have ok: "length line \<le> 15 \<or> is_word line"
      using formatted_line_ok [OF mem ne] by (simp add: line_ok_def)
    have nospace: "\<not> list_ex isspace line" if "is_word line"
      using that by (auto simp: is_word_def list_all_iff list_ex_iff)
    have "CHR '' '' \<notin> set line" if "is_word line"
      using nospace [OF that] isspace_space by (auto simp: list_ex_iff)
    with ok nospace formatted_word_of_text [OF mem] show ?thesis by blast
  qed
  have long: "word \<in> set (formatted_lines_of content)"
    if "word \<in> set (split_ws (replace CHR ''?'' ''?\<newline>'' (replace CHR ''!'' ''!\<newline>''
          (replace CHR ''.'' ''.\<newline>'' content))))" and "length word > 15" for word
    using that by (rule formatted_lines_long_word)
  from lines long show ?thesis
    unfolding format_linkedin_post_correctly_def by blast
qed

theorem reflow_lines_at_most_15_witness:
  "formatted_lines_of ''I really like antidisestablishmentarianism today. Ok!'' =
     [''I really like'', ''antidisestablishmentarianism'', [], ''today.'', ''Ok!''] \<and>
   ''I really like'' \<in> set (formatted_lines_of ''I really like antidisestablishmentarianism today. Ok!'') \<and>
   CHR '' '' \<in> set ''I really like'' \<and> length ''I really like'' \<le> 15 \<and>
   ''antidisestablishmentarianism'' \<in>
     set (formatted_lines_of ''I really like antidisestablishmentarianism today. Ok!'') \<and>
   length ''antidisestablishmentarianism'' > 15 \<and> is_word ''antidisestablishmentarianism'' \<and>
   ''antidisestablishmentarianism'' \<in>
     set (split_ws (replace CHR ''?'' ''?\<newline>'' (replace CHR ''!'' ''!\<newline>''
       (replace CHR ''.'' ''.\<newline>'' ''I really like antidisestablishmentarianism today. Ok!''))))"
proof -
  have f: "formatted_lines_of ''I really like antidisestablishmentarianism today. Ok!'' =
     [''I really like'', ''antidisestablishmentarianism'', [], ''today.'', ''Ok!'']"
    by code_simp
  have w: "''antidisestablishmentarianism'' \<in>
     set (split_ws (replace CHR ''?'' ''?\<newline>'' (replace CHR ''!'' ''!\<newline>''
       (replace CHR ''.'' ''.\<newline>'' ''I really like antidisestablishmentarianism today. Ok!''))))"
    by code_simp
  have i: "is_word ''antidisestablishmentarianism''"
    by code_simp
  have m: "''I really like'' \<in> set (formatted_lines_of ''I really like antidisestablishmentarianism today. Ok!'')"
    "''antidisestablishmentarianism'' \<in>
     set (formatted_lines_of ''I really like antidisestablishmentarianism today. Ok!'')"
    unfolding f by simp_all
  have l: "CHR '' '' \<in> set ''I really like''" "length ''I really like'' \<le> 15"
    "length ''antidisestablishmentarianism'' > 15"
    by simp_all
  from f w i m l
    reflow_lines_at_most_15 [of "''I really like antidisestablishmentarianism today. Ok!''"]
  show ?thesis by blast
qed

text \<open>
  Claim C7, as amended. Joining the non-empty output lines with single spaces gives, up
  to white-space normalisation, the input with a line break put after every ".", "!" and
  "?": the words of that text are all there, once each and in order. It gives the original
  content up to white-space normalisation whenever every such mark in the input is
  followed by white space or ends the input; a mark inside a word splits the word.
\<close>

theorem reflow_keeps_words:
  "split_ws (join '' '' (filter (\<lambda>l. l \<noteq> []) (formatted_lines_of content))) =
     split_ws (replace CHR ''?'' ''?\<newline>'' (replace CHR ''!'' ''!\<newline>''
       (replace CHR ''.'' ''.\<newline>'' content))) \<and>
   normalize_ws (join '' '' (filter (\<lambda>l. l \<noteq> []) (formatted_lines_of content))) =
     normalize_ws (replace CHR ''?'' ''?\<newline>'' (replace CHR ''!'' ''!\<newline>''
       (replace CHR ''.'' ''.\<newline>'' content))) \<and>
   (marks_end_words ''.!?'' content \<longrightarrow>
      split_ws (join '' '' (filter (\<lambda>l. l \<noteq> []) (formatted_lines_of content))) =
        split_ws content \<and>
      normalize_ws (join '' '' (filter (\<lambda>l. l \<noteq> []) (formatted_lines_of content))) =
        normalize_ws content)"
  by (simp add: normalize_ws_def formatted_lines_words split_ws_broken)

theorem reflow_keeps_words_witness:
  "marks_end_words ''.!?'' ''Hello wonderful world.  This is great! Ok?'' \<and>
   formatted_lines_of ''Hello wonderful world.  This is great! Ok?'' =
     [''Hello wonderful'', ''world.'', [], ''This is great!'', ''Ok?''] \<and>
   normalize_ws (join '' '' (filter (\<lambda>l. l \<noteq> [])
       (formatted_lines_of ''Hello wonderful world.  This is great! Ok?''))) =
     normalize_ws ''Hello wonderful world.  This is great! Ok?'' \<and>
   normalize_ws ''Hello wonderful world.  This is great! Ok?'' =
     ''Hello wonderful world. This is great! Ok?''"
proof -
  have m: "marks_end_words ''.!?'' ''Hello wonderful world.  This is great! Ok?''"
    by code_simp
  have f: "formatted_lines_of ''Hello wonderful world.  This is great! Ok?'' =
     [''Hello wonderful'', ''world.'', [], ''This is great!'', ''Ok?'']"
    by code_simp
  have n: "normalize_ws ''Hello wonderful world.  This is great! Ok?'' =
     ''Hello wonderful world. This is great! Ok?''"
    by code_simp
  from m f n reflow_keeps_words [of "''Hello wonderful world.  This is great! Ok?''"]
  show ?thesis by blast
qed

text \<open>The claim as first stated (the original content for every input) fails where a
  mark stands inside a word: the one word of "a.b" comes out as the two words "a." and "b".\<close>

theorem reflow_round_trip_counterexample:
  "formatted_lines_of ''a.b'' = [''a.'', ''b''] \<and>
   normalize_ws (join '' '' (filter (\<lambda>l. l \<noteq> []) (formatted_lines_of ''a.b''))) = ''a. b'' \<and>
   normalize_ws ''a.b'' = ''a.b'' \<and>
   normalize_ws (join '' '' (filter (\<lambda>l. l \<noteq> []) (formatted_lines_of ''a.b''))) \<noteq>
     normalize_ws ''a.b'' \<and>
   split_ws (join '' '' (filter (\<lambda>l. l \<noteq> []) (formatted_lines_of ''a.b''))) = [''a.'', ''b''] \<and>
   split_ws ''a.b'' = [''a.b'']"
  by code_simp


end
